theory Spec2Isabelle
  imports Main "HOL-Library.Word" "HOL-Library.Multiset" "HOL-Library.Extended_Nat"
    "HOL-Library.Code_Target_Numeral"
begin

section \<open>Bytes\<close>

text \<open>
  A byte (\<open>u_char\<close>) is a \<^typ>\<open>char\<close>; a buffer is a \<^typ>\<open>string\<close>.  Where the C code
  computes with a byte, the model reads it with \<open>of_char\<close> as a natural number below 256
  and writes it with \<open>char_of\<close>.
\<close>

definition byte :: "char \<Rightarrow> nat" where
  "byte c = of_char c"

definition CR :: char where
  "CR = CHR 0x0D"

definition LF :: char where
  "LF = CHR 0x0A"

definition CRLF :: string where
  "CRLF = [CR, LF]"


section \<open>The HTTP/1.x connection engine (nxt_h1proto.c)\<close>

subsection \<open>State\<close>

datatype nxt_http_te = NXT_HTTP_TE_NONE | NXT_HTTP_TE_CHUNKED | NXT_HTTP_TE_UNSUPPORTED

text \<open>
  The fields of \<open>nxt_h1proto_t\<close> the functions below read and write.  \<open>version_minor\<close> is
  \<open>parser.version.s.minor\<close>, the minor digit of the request's HTTP version.
\<close>

record nxt_h1proto =
  version_minor :: char
  keepalive :: bool
  chunked :: bool
  transfer_encoding :: nxt_http_te

record nxt_http_field =
  field_name :: string
  field_value :: string
  field_skip :: bool

text \<open>
  A memory buffer (\<open>nxt_buf_mem_t\<close>): the bytes between \<open>pos\<close> and \<open>free\<close>, and the room left
  between \<open>free\<close> and \<open>end\<close>.
\<close>

record nxt_buf =
  mem_used :: string
  mem_free :: nat

text \<open>
  The fields of the request \<open>nxt_http_request_t\<close> (with its socket configuration's
  \<open>max_body_size\<close>) and of the connection \<open>nxt_conn_t\<close> that body reading and header
  sending use.
\<close>

record nxt_http_request =
  content_length_n :: "64 word"
  max_body_size :: "64 word"
  body :: "nxt_buf option"
  status :: nat
  header_sent :: bool
  resp_fields :: "nxt_http_field list"
  resp_content_length :: "nxt_http_field option"

datatype nxt_conn_state = Idle_state | Read_header_state | Read_body_state | Send_state

record nxt_conn =
  conn_read :: "nxt_buf option"
  conn_write :: "nxt_buf option"
  read_state :: nxt_conn_state
  write_state :: nxt_conn_state

text \<open>
  Modelled from the spec: the status enumeration of \<open>nxt_http.h\<close> is not among the
  sources; its members are the HTTP status codes the spec names (411 Length Required, 413
  Payload Too Large, 500 Internal Server Error, 501 Not Implemented), and the status line
  tables of \<open>nxt_h1proto.c\<close> are indexed from \<open>NXT_HTTP_OK\<close>,
  \<open>NXT_HTTP_MULTIPLE_CHOICES\<close>, \<open>NXT_HTTP_BAD_REQUEST\<close> and
  \<open>NXT_HTTP_INTERNAL_SERVER_ERROR\<close>.
\<close>

definition NXT_HTTP_OK :: nat where
  "NXT_HTTP_OK = 200"

definition NXT_HTTP_MULTIPLE_CHOICES :: nat where
  "NXT_HTTP_MULTIPLE_CHOICES = 300"

definition NXT_HTTP_BAD_REQUEST :: nat where
  "NXT_HTTP_BAD_REQUEST = 400"

definition NXT_HTTP_LENGTH_REQUIRED :: nat where
  "NXT_HTTP_LENGTH_REQUIRED = 411"

definition NXT_HTTP_PAYLOAD_TOO_LARGE :: nat where
  "NXT_HTTP_PAYLOAD_TOO_LARGE = 413"

definition NXT_HTTP_INTERNAL_SERVER_ERROR :: nat where
  "NXT_HTTP_INTERNAL_SERVER_ERROR = 500"

definition NXT_HTTP_NOT_IMPLEMENTED :: nat where
  "NXT_HTTP_NOT_IMPLEMENTED = 501"

subsection \<open>Field handlers\<close>

text \<open>\<open>nxt_h1p_connection\<close>: the value \<open>close\<close> switches keepalive off.\<close>

definition nxt_h1p_connection :: "nxt_h1proto \<Rightarrow> nxt_http_field \<Rightarrow> nxt_h1proto" where
  "nxt_h1p_connection h1p field =
     (if length (field_value field) = 5 \<and> field_value field = ''close''
      then h1p\<lparr>keepalive := False\<rparr> else h1p)"

text \<open>\<open>nxt_h1p_transfer_encoding\<close>: the value \<open>chunked\<close>, and anything else.\<close>

definition nxt_h1p_transfer_encoding :: "nxt_h1proto \<Rightarrow> nxt_http_field \<Rightarrow> nxt_h1proto" where
  "nxt_h1p_transfer_encoding h1p field =
     (let te = (if length (field_value field) = 7 \<and> field_value field = ''chunked''
                then NXT_HTTP_TE_CHUNKED else NXT_HTTP_TE_UNSUPPORTED)
      in h1p\<lparr>transfer_encoding := te\<rparr>)"

subsection \<open>Reading the request body\<close>

text \<open>
  What \<open>nxt_h1p_request_body_read\<close> hands control to when it returns: the error response
  of \<open>nxt_http_request_error\<close> with a status, the request's ready handler, or a read on
  the connection.
\<close>

datatype body_read_event = Request_error nat | Ready_handler | Conn_read | Fault

text \<open>
  \<open>nxt_h1p_request_body_read\<close>.  \<open>alloc_ok\<close> says whether \<open>nxt_buf_mem_alloc\<close> succeeds;
  \<open>buffers\<close> is the list \<open>h1p->buffers\<close> of retained header buffers.  The result is the
  state as the function leaves it and the event it ends with.  The code dereferences
  \<open>h1p->conn->read\<close> and copies into the body buffer without a check: a missing read
  buffer, or a body buffer with less room than the bytes copied, is the event \<open>Fault\<close>.
\<close>

definition nxt_h1p_request_body_read ::
  "bool \<Rightarrow> nxt_h1proto \<Rightarrow> nxt_http_request \<Rightarrow> nxt_conn \<Rightarrow> nxt_buf list \<Rightarrow>
   (nxt_h1proto \<times> nxt_http_request \<times> nxt_conn \<times> nxt_buf list) \<times> body_read_event" where
  "nxt_h1p_request_body_read alloc_ok h1p r c buffers =
     (let error = (\<lambda>st. ((h1p\<lparr>keepalive := False\<rparr>, r, c, buffers), Request_error st)) in
      case transfer_encoding h1p of
        NXT_HTTP_TE_CHUNKED \<Rightarrow> error NXT_HTTP_LENGTH_REQUIRED
      | NXT_HTTP_TE_UNSUPPORTED \<Rightarrow> error NXT_HTTP_NOT_IMPLEMENTED
      | NXT_HTTP_TE_NONE \<Rightarrow>
          if content_length_n r = - 1 \<or> content_length_n r = 0
          then ((h1p, r, c, buffers), Ready_handler)
          else if max_body_size r <s content_length_n r
          then error NXT_HTTP_PAYLOAD_TOO_LARGE
          else
            let body_length = unat (content_length_n r) in
            (case (case body r of
                     Some b \<Rightarrow> Some b
                   | None \<Rightarrow> if alloc_ok then Some \<lparr>mem_used = [], mem_free = body_length\<rparr>
                             else None) of
               None \<Rightarrow> error NXT_HTTP_INTERNAL_SERVER_ERROR
             | Some b \<Rightarrow>
                 (case conn_read c of
                    None \<Rightarrow> ((h1p, r\<lparr>body := Some b\<rparr>, c, buffers), Fault)
                  | Some in_buf \<Rightarrow>
                      let size = min (length (mem_used in_buf)) body_length in
                      if mem_free b < size
                      then ((h1p, r\<lparr>body := Some b\<rparr>, c, buffers), Fault)
                      else
                        let b' = b\<lparr>mem_used := mem_used b @ take size (mem_used in_buf),
                                   mem_free := mem_free b - size\<rparr>;
                            in' = in_buf\<lparr>mem_used := drop size (mem_used in_buf)\<rparr>;
                            r' = r\<lparr>body := Some b'\<rparr>
                        in if mem_free b' \<noteq> 0
                           then ((h1p, r', c\<lparr>conn_read := Some b', read_state := Read_body_state\<rparr>,
                                  in' # buffers), Conn_read)
                           else ((h1p, r', c\<lparr>conn_read := Some in'\<rparr>, buffers),
                                 Ready_handler))))"

subsection \<open>Sending the response header\<close>

definition nxt_http_success :: "string list" where
  "nxt_http_success =
    [''HTTP/1.1 200 OK'' @ CRLF,
     ''HTTP/1.1 201 Created'' @ CRLF,
     ''HTTP/1.1 202 Accepted'' @ CRLF,
     ''HTTP/1.1 203 Non-Authoritative Information'' @ CRLF,
     ''HTTP/1.1 204 No Content'' @ CRLF,
     ''HTTP/1.1 205 Reset Content'' @ CRLF,
     ''HTTP/1.1 206 Partial Content'' @ CRLF]"

definition nxt_http_redirection :: "string list" where
  "nxt_http_redirection =
    [''HTTP/1.1 300 Multiple Choices'' @ CRLF,
     ''HTTP/1.1 301 Moved Permanently'' @ CRLF,
     ''HTTP/1.1 302 Found'' @ CRLF,
     ''HTTP/1.1 303 See Other'' @ CRLF,
     ''HTTP/1.1 304 Not Modified'' @ CRLF]"

definition nxt_http_client_error :: "string list" where
  "nxt_http_client_error =
    [''HTTP/1.1 400 Bad Request'' @ CRLF,
     ''HTTP/1.1 401 Unauthorized'' @ CRLF,
     ''HTTP/1.1 402 Payment Required'' @ CRLF,
     ''HTTP/1.1 403 Forbidden'' @ CRLF,
     ''HTTP/1.1 404 Not Found'' @ CRLF,
     ''HTTP/1.1 405 Method Not Allowed'' @ CRLF,
     ''HTTP/1.1 406 Not Acceptable'' @ CRLF,
     ''HTTP/1.1 407 Proxy Authentication Required'' @ CRLF,
     ''HTTP/1.1 408 Request Timeout'' @ CRLF,
     ''HTTP/1.1 409 Conflict'' @ CRLF,
     ''HTTP/1.1 410 Gone'' @ CRLF,
     ''HTTP/1.1 411 Length Required'' @ CRLF,
     ''HTTP/1.1 412 Precondition Failed'' @ CRLF,
     ''HTTP/1.1 413 Payload Too Large'' @ CRLF,
     ''HTTP/1.1 414 URI Too Long'' @ CRLF,
     ''HTTP/1.1 415 Unsupported Media Type'' @ CRLF,
     ''HTTP/1.1 416 Range Not Satisfiable'' @ CRLF,
     ''HTTP/1.1 417 Expectation Failed'' @ CRLF,
     ''HTTP/1.1 418'' @ CRLF,
     ''HTTP/1.1 419'' @ CRLF,
     ''HTTP/1.1 420'' @ CRLF,
     ''HTTP/1.1 421'' @ CRLF,
     ''HTTP/1.1 422'' @ CRLF,
     ''HTTP/1.1 423'' @ CRLF,
     ''HTTP/1.1 424'' @ CRLF,
     ''HTTP/1.1 425'' @ CRLF,
     ''HTTP/1.1 426'' @ CRLF,
     ''HTTP/1.1 427'' @ CRLF,
     ''HTTP/1.1 428'' @ CRLF,
     ''HTTP/1.1 429'' @ CRLF,
     ''HTTP/1.1 430'' @ CRLF,
     ''HTTP/1.1 431 Request Header Fields Too Large'' @ CRLF]"

definition nxt_http_server_error :: "string list" where
  "nxt_http_server_error =
    [''HTTP/1.1 500 Internal Server Error'' @ CRLF,
     ''HTTP/1.1 501 Not Implemented'' @ CRLF,
     ''HTTP/1.1 502 Bad Gateway'' @ CRLF,
     ''HTTP/1.1 503 Service Unavailable'' @ CRLF,
     ''HTTP/1.1 504 Gateway Timeout'' @ CRLF,
     ''HTTP/1.1 505 HTTP Version Not Supported'' @ CRLF]"

definition NXT_HTTP_LAST_SUCCESS :: nat where
  "NXT_HTTP_LAST_SUCCESS = NXT_HTTP_OK + length nxt_http_success - 1"

definition NXT_HTTP_LAST_REDIRECTION :: nat where
  "NXT_HTTP_LAST_REDIRECTION = NXT_HTTP_MULTIPLE_CHOICES + length nxt_http_redirection - 1"

definition NXT_HTTP_LAST_CLIENT_ERROR :: nat where
  "NXT_HTTP_LAST_CLIENT_ERROR = NXT_HTTP_BAD_REQUEST + length nxt_http_client_error - 1"

definition NXT_HTTP_LAST_SERVER_ERROR :: nat where
  "NXT_HTTP_LAST_SERVER_ERROR =
     NXT_HTTP_INTERNAL_SERVER_ERROR + length nxt_http_server_error - 1"

definition UNKNOWN_STATUS_LENGTH :: nat where
  "UNKNOWN_STATUS_LENGTH = length (''HTTP/1.1 65536'' @ CRLF)"

text \<open>The decimal digits of a natural number, most significant first.\<close>

fun dec_digits :: "nat \<Rightarrow> string" where
  "dec_digits n =
     (if n < 10 then [char_of (48 + n)]
      else dec_digits (n div 10) @ [char_of (48 + n mod 10)])"

declare dec_digits.simps [simp del]

text \<open>
  Modelled from the spec: \<open>nxt_sprintf\<close> is not among the sources.  For a code outside the
  tables the status line is \<open>HTTP/1.1 NNN\<close> and CRLF: the format \<open>%03d\<close> prints the number
  in decimal, padded with zeros to three digits, and the output stops at the end of the
  buffer of \<open>UNKNOWN_STATUS_LENGTH\<close> bytes.
\<close>

definition sprintf_unknown_status :: "nat \<Rightarrow> string" where
  "sprintf_unknown_status n =
     take UNKNOWN_STATUS_LENGTH
       (''HTTP/1.1 '' @ replicate (3 - length (dec_digits n)) CHR ''0'' @ dec_digits n @ CRLF)"

text \<open>The choice of the status line at the head of \<open>nxt_h1p_request_header_send\<close>.\<close>

definition status_line :: "nat \<Rightarrow> string" where
  "status_line n =
     (if n \<ge> NXT_HTTP_OK \<and> n \<le> NXT_HTTP_LAST_SUCCESS
      then nxt_http_success ! (n - NXT_HTTP_OK)
      else if n \<ge> NXT_HTTP_MULTIPLE_CHOICES \<and> n \<le> NXT_HTTP_LAST_REDIRECTION
      then nxt_http_redirection ! (n - NXT_HTTP_MULTIPLE_CHOICES)
      else if n \<ge> NXT_HTTP_BAD_REQUEST \<and> n \<le> NXT_HTTP_LAST_CLIENT_ERROR
      then nxt_http_client_error ! (n - NXT_HTTP_BAD_REQUEST)
      else if n \<ge> NXT_HTTP_INTERNAL_SERVER_ERROR \<and> n \<le> NXT_HTTP_LAST_SERVER_ERROR
      then nxt_http_server_error ! (n - NXT_HTTP_INTERNAL_SERVER_ERROR)
      else sprintf_unknown_status n)"

definition chunked_line :: string where
  "chunked_line = ''Transfer-Encoding: chunked'' @ CRLF"

definition connection :: "string list" where
  "connection = [''Connection: close'' @ CRLF, ''Connection: keep-alive'' @ CRLF]"

text \<open>The two loops over \<open>r->resp.fields\<close>: the size of the fields, and their bytes.\<close>

fun fields_size :: "nxt_http_field list \<Rightarrow> nat" where
  "fields_size [] = 0"
| "fields_size (f # fs) =
     (if \<not> field_skip f
      then length (field_name f) + length (field_value f) + length ('': '' @ CRLF)
      else 0) + fields_size fs"

fun fields_bytes :: "nxt_http_field list \<Rightarrow> string" where
  "fields_bytes [] = []"
| "fields_bytes (f # fs) =
     (if \<not> field_skip f
      then field_name f @ '': '' @ field_value f @ CRLF
      else []) @ fields_bytes fs"

datatype header_send_event = Conn_close | Conn_write | Buffer_overrun

text \<open>
  \<open>nxt_h1p_request_header_send\<close>.  \<open>alloc_ok\<close> says whether \<open>nxt_buf_mem_alloc\<close> succeeds.
  \<open>conn\<close> is the code's variable of that name: \<open>-1\<close>, or the keepalive bit as the index
  into \<open>connection\<close>.  The header buffer is allocated with the computed \<open>size\<close>; bytes
  written past it are the event \<open>Buffer_overrun\<close>.
\<close>

definition nxt_h1p_request_header_send ::
  "bool \<Rightarrow> nxt_h1proto \<Rightarrow> nxt_http_request \<Rightarrow> nxt_conn \<Rightarrow>
   (nxt_h1proto \<times> nxt_http_request \<times> nxt_conn) \<times> header_send_event" where
  "nxt_h1p_request_header_send alloc_ok h1p0 r0 c =
     (let r = r0\<lparr>header_sent := True\<rparr>;
          n = status r;
          st = status_line n;
          size0 = length st + length CRLF;
          http11 = (version_minor h1p0 \<noteq> CHR ''0'');
          no_length = (case resp_content_length r of None \<Rightarrow> True | Some f \<Rightarrow> field_skip f);
          (h1p, size1) =
            (if no_length
             then (if http11
                   then (h1p0\<lparr>chunked := True\<rparr>, size0 + length chunked_line - length CRLF)
                   else (h1p0\<lparr>keepalive := False\<rparr>, size0))
             else (h1p0, size0));
          conn = (if http11 \<noteq> keepalive h1p then (if keepalive h1p then 1 else 0) else - 1 :: int);
          size2 = (if conn \<ge> 0 then size1 + length (connection ! nat conn) else size1);
          size = size2 + fields_size (resp_fields r)
      in if \<not> alloc_ok
         then ((h1p, r\<lparr>status := NXT_HTTP_INTERNAL_SERVER_ERROR\<rparr>, c), Conn_close)
         else
           let p = st @ fields_bytes (resp_fields r)
                   @ (if conn \<ge> 0 then connection ! nat conn else [])
                   @ (if chunked h1p then chunked_line else CRLF)
           in if size < length p
              then ((h1p, r, c), Buffer_overrun)
              else ((h1p, r, c\<lparr>conn_write := Some \<lparr>mem_used = p, mem_free = size - length p\<rparr>,
                               write_state := Send_state\<rparr>), Conn_write))"


text \<open>
  The default of the keepalive mode, as \<open>nxt_h1p_header_parse\<close> sets it once the request
  line is parsed: off in HTTP/1.0, on otherwise.
\<close>

definition keepalive_default :: "char \<Rightarrow> bool" where
  "keepalive_default minor = (minor \<noteq> CHR ''0'')"

definition nxt_h1p_header_parse_done :: "nxt_h1proto \<Rightarrow> nxt_h1proto" where
  "nxt_h1p_header_parse_done h1p = h1p\<lparr>keepalive := keepalive_default (version_minor h1p)\<rparr>"


section \<open>The configuration value tree (nxt_conf_json.c)\<close>

subsection \<open>Values\<close>

text \<open>
  \<open>nxt_conf_json_value_t\<close> is a tagged union.  The two string variants carry their bytes:
  the short one inline (\<open>u.str\<close>, a length byte and up to \<open>NXT_CONF_JSON_STR_SIZE\<close>
  bytes), the long one through \<open>u.string\<close>.  A member's name is a value that the code
  only ever reads as one of the two string variants (\<open>nxt_conf_json_print_string\<close>,
  \<open>nxt_conf_json_object_get_member\<close> and \<open>nxt_conf_json_object_hash_add\<close> test for
  \<open>NXT_CONF_JSON_SHORT_STRING\<close> and take anything else for \<open>NXT_CONF_JSON_STRING\<close>) and
  only ever writes as one (\<open>nxt_conf_json_parse_string\<close>, \<open>nxt_conf_json_op_compile\<close>), so
  the strings are a type of their own.
\<close>

definition NXT_CONF_JSON_STR_SIZE :: nat where
  "NXT_CONF_JSON_STR_SIZE = 14"

datatype nxt_conf_json_str =
    JSON_SHORT_STRING string
  | JSON_STRING string

datatype nxt_conf_json_value =
    JSON_NULL
  | JSON_BOOLEAN bool
  | JSON_INTEGER "64 word"
  | JSON_NUMBER
  | JSON_STR nxt_conf_json_str
  | JSON_ARRAY "nxt_conf_json_value list"
  | JSON_OBJECT "(nxt_conf_json_str \<times> nxt_conf_json_value) list"

type_synonym nxt_conf_json_obj_member = "nxt_conf_json_str \<times> nxt_conf_json_value"

text \<open>The bytes of a string value: what both variants hold.\<close>

fun str_bytes :: "nxt_conf_json_str \<Rightarrow> string" where
  "str_bytes (JSON_SHORT_STRING s) = s"
| "str_bytes (JSON_STRING s) = s"

subsection \<open>The printer\<close>

text \<open>
  The pretty-printing context \<open>nxt_conf_json_pretty_t\<close>; a \<open>NULL\<close> context is compact
  printing.  The printer changes the context through the pointer: the model returns it.
\<close>

record nxt_conf_json_pretty =
  level :: nat
  more_space :: bool

type_synonym pretty = "nxt_conf_json_pretty option"

definition nxt_conf_json_newline :: string where
  "nxt_conf_json_newline = [CR, LF]"

definition nxt_conf_json_indentation :: "nxt_conf_json_pretty \<Rightarrow> string" where
  "nxt_conf_json_indentation pr = replicate (level pr) (CHR 0x09)"

text \<open>
  Modelled from the spec: the macros \<open>NXT_INT64_T_LEN\<close> and \<open>NXT_INT64_T_MAX\<close> are not
  among the sources.  Integers are signed 64-bit and printed in decimal: the length is
  that of the longest such number, the maximum is \<open>2^63 - 1\<close>.
\<close>

definition NXT_INT64_T_LEN :: nat where
  "NXT_INT64_T_LEN = length ''-9223372036854775808''"

definition NXT_INT64_T_MAX :: nat where
  "NXT_INT64_T_MAX = 9223372036854775807"

text \<open>
  \<open>llabs\<close> on a 64-bit integer.  For the least integer the C function is undefined; the
  model wraps around, as the usual implementation does.
\<close>

definition llabs :: "64 word \<Rightarrow> 64 word" where
  "llabs num = (if num <s 0 then - num else num)"

text \<open>
  Modelled from the spec: \<open>nxt_sprintf\<close> is not among the sources.  Integers are printed
  in decimal; the format \<open>%L\<close> prints a signed 64-bit integer, and the output stops at
  the end of the buffer of \<open>NXT_INT64_T_LEN\<close> bytes.
\<close>

definition sprintf_int64 :: "64 word \<Rightarrow> string" where
  "sprintf_int64 num =
     take NXT_INT64_T_LEN
       (if sint num < 0 then CHR ''-'' # dec_digits (nat (- sint num))
        else dec_digits (nat (sint num)))"

text \<open>\<open>nxt_conf_json_print_integer\<close>: without a buffer, and with one.\<close>

definition nxt_conf_json_print_integer_size :: "64 word \<Rightarrow> nat" where
  "nxt_conf_json_print_integer_size num0 =
     (let num = llabs num0
      in if num \<le>s 9999 then length ''-9999''
         else if num \<le>s 99999999999 then length ''-99999999999''
         else NXT_INT64_T_LEN)"

definition nxt_conf_json_print_integer_emit :: "64 word \<Rightarrow> string" where
  "nxt_conf_json_print_integer_emit num = sprintf_int64 num"

text \<open>\<open>nxt_conf_json_escape\<close>: without a destination it counts the bytes to add.\<close>

fun nxt_conf_json_escape_size :: "string \<Rightarrow> nat" where
  "nxt_conf_json_escape_size [] = 0"
| "nxt_conf_json_escape_size (ch # src) =
     (if ch = CHR 0x5C \<or> ch = CHR 0x22 then 1
      else if byte ch \<le> 0x1f
      then (if ch = LF \<or> ch = CR \<or> ch = CHR 0x09 \<or> ch = CHR 0x08 \<or> ch = CHR 0x0C then 1
            else length (CHR 0x5C # ''u001F'') + 1 - 2)
      else 0)
     + nxt_conf_json_escape_size src"

definition hex_digit :: "nat \<Rightarrow> char" where
  "hex_digit ch = (if ch < 10 then char_of (byte CHR ''0'' + ch)
                   else char_of (byte CHR ''A'' + ch - 10))"

fun nxt_conf_json_escape_emit :: "string \<Rightarrow> string" where
  "nxt_conf_json_escape_emit [] = []"
| "nxt_conf_json_escape_emit (ch # src) =
     (if byte ch > 0x1f
      then (if ch = CHR 0x5C \<or> ch = CHR 0x22 then [CHR 0x5C, ch] else [ch])
      else CHR 0x5C #
        (if ch = LF then ''n''
         else if ch = CR then ''r''
         else if ch = CHR 0x09 then ''t''
         else if ch = CHR 0x08 then ''b''
         else if ch = CHR 0x0C then ''f''
         else [CHR ''u'', CHR ''0'', CHR ''0'',
               char_of (byte CHR ''0'' + byte ch div 16),
               hex_digit (byte ch mod 16)]))
     @ nxt_conf_json_escape_emit src"

text \<open>\<open>nxt_conf_json_print_string\<close>.\<close>

definition nxt_conf_json_print_string_size :: "nxt_conf_json_str \<Rightarrow> nat" where
  "nxt_conf_json_print_string_size v =
     (let s = str_bytes v in 2 + length s + nxt_conf_json_escape_size s)"

definition nxt_conf_json_print_string_emit :: "nxt_conf_json_str \<Rightarrow> string" where
  "nxt_conf_json_print_string_emit v =
     CHR 0x22 # nxt_conf_json_escape_emit (str_bytes v) @ [CHR 0x22]"

text \<open>The context's \<open>level++\<close> and \<open>level--\<close>, where there is a context.\<close>

definition level_inc :: "pretty \<Rightarrow> pretty" where
  "level_inc p = map_option (\<lambda>pr. pr\<lparr>level := level pr + 1\<rparr>) p"

definition level_dec :: "pretty \<Rightarrow> pretty" where
  "level_dec p = map_option (\<lambda>pr. pr\<lparr>level := level pr - 1\<rparr>) p"

text \<open>
  \<open>nxt_conf_json_print_value\<close> without a buffer (\<open>pos == NULL\<close>): the number of bytes
  to reserve.  The two loop functions are the \<open>for\<close> loops of
  \<open>nxt_conf_json_print_array\<close> and \<open>nxt_conf_json_print_object\<close>, with \<open>len\<close> as
  accumulator.
\<close>

fun nxt_conf_json_print_value_size :: "nxt_conf_json_value \<Rightarrow> pretty \<Rightarrow> nat \<times> pretty"
  and print_array_size_loop :: "nxt_conf_json_value list \<Rightarrow> pretty \<Rightarrow> nat \<Rightarrow> nat \<times> pretty"
  and print_object_size_loop ::
    "nxt_conf_json_obj_member list \<Rightarrow> pretty \<Rightarrow> nat \<Rightarrow> nat \<times> pretty"
where
  "nxt_conf_json_print_value_size JSON_NULL p = (length ''null'', p)"
| "nxt_conf_json_print_value_size (JSON_BOOLEAN b) p =
     (if b then length ''true'' else length ''false'', p)"
| "nxt_conf_json_print_value_size (JSON_INTEGER num) p =
     (nxt_conf_json_print_integer_size num, p)"
| "nxt_conf_json_print_value_size JSON_NUMBER p = (0, p)"
| "nxt_conf_json_print_value_size (JSON_STR s) p = (nxt_conf_json_print_string_size s, p)"
| "nxt_conf_json_print_value_size (JSON_ARRAY elements) p =
     (let (len, p1) = print_array_size_loop elements (level_inc p) 2;
          p2 = level_dec p1;
          len1 = (case p2 of
                    None \<Rightarrow> len
                  | Some pr \<Rightarrow> if length elements \<noteq> 0 then len + (level pr + 2) else len)
      in (len1 + length elements, p2))"
| "nxt_conf_json_print_value_size (JSON_OBJECT members) p =
     (let (len, p1) = print_object_size_loop members (level_inc p) 2;
          p2 = level_dec p1;
          len1 = (case p2 of None \<Rightarrow> len | Some pr \<Rightarrow> len + (level pr + 2))
      in (len1, p2))"
| "print_array_size_loop [] p len = (len, p)"
| "print_array_size_loop (v # vs) p len =
     (let (n, p1) = nxt_conf_json_print_value_size v p;
          len1 = len + n;
          len2 = (case p1 of None \<Rightarrow> len1 | Some pr \<Rightarrow> len1 + (level pr + 2))
      in print_array_size_loop vs p1 len2)"
| "print_object_size_loop [] p len = (len, p)"
| "print_object_size_loop (m # ms) p len =
     (let (n, p1) = nxt_conf_json_print_value_size (snd m) p;
          len1 = len + (nxt_conf_json_print_string_size (fst m) + 1 + n + 1);
          len2 = (case p1 of None \<Rightarrow> len1 | Some pr \<Rightarrow> len1 + (level pr + 1 + 2 + 2))
      in print_object_size_loop ms p1 len2)"

text \<open>
  \<open>nxt_conf_json_print_value\<close> with a buffer: the bytes written from \<open>pos\<close> on.
  \<open>print_array_emit_loop\<close> is the loop over the elements after the first;
  \<open>print_object_emit_loop\<close> is the \<open>for (;;)\<close> loop over the members of an object that
  has one at least.
\<close>

definition pretty_open :: "bool \<Rightarrow> pretty \<Rightarrow> string \<times> pretty" where
  "pretty_open indent p =
     (case p of
        None \<Rightarrow> ([], None)
      | Some pr \<Rightarrow>
          let pr1 = pr\<lparr>level := level pr + 1\<rparr>
          in (nxt_conf_json_newline @ (if indent then nxt_conf_json_indentation pr1 else []),
              Some pr1))"

definition pretty_close :: "pretty \<Rightarrow> string \<times> pretty" where
  "pretty_close p =
     (case p of
        None \<Rightarrow> ([], None)
      | Some pr \<Rightarrow>
          let pr1 = pr\<lparr>level := level pr - 1\<rparr>
          in (nxt_conf_json_newline @ nxt_conf_json_indentation pr1,
              Some (pr1\<lparr>more_space := True\<rparr>)))"

fun nxt_conf_json_print_value_emit :: "nxt_conf_json_value \<Rightarrow> pretty \<Rightarrow> string \<times> pretty"
  and print_array_emit_loop :: "nxt_conf_json_value list \<Rightarrow> pretty \<Rightarrow> string \<times> pretty"
  and print_object_emit_loop :: "nxt_conf_json_obj_member list \<Rightarrow> pretty \<Rightarrow> string \<times> pretty"
where
  "nxt_conf_json_print_value_emit JSON_NULL p = (''null'', p)"
| "nxt_conf_json_print_value_emit (JSON_BOOLEAN b) p = (if b then ''true'' else ''false'', p)"
| "nxt_conf_json_print_value_emit (JSON_INTEGER num) p =
     (nxt_conf_json_print_integer_emit num, p)"
| "nxt_conf_json_print_value_emit JSON_NUMBER p = ([], p)"
| "nxt_conf_json_print_value_emit (JSON_STR s) p = (nxt_conf_json_print_string_emit s, p)"
| "nxt_conf_json_print_value_emit (JSON_ARRAY []) p = (''[]'', p)"
| "nxt_conf_json_print_value_emit (JSON_ARRAY (v # vs)) p =
     (let (pre, p1) = pretty_open True p;
          (b0, p2) = nxt_conf_json_print_value_emit v p1;
          (bs, p3) = print_array_emit_loop vs p2;
          (post, p4) = pretty_close p3
      in (''['' @ pre @ b0 @ bs @ post @ '']'', p4))"
| "nxt_conf_json_print_value_emit (JSON_OBJECT []) p = (''{}'', p)"
| "nxt_conf_json_print_value_emit (JSON_OBJECT (m # ms)) p =
     (let (pre, p1) = pretty_open False p;
          (bs, p2) = print_object_emit_loop (m # ms) p1;
          (post, p3) = pretty_close p2
      in (''{'' @ pre @ bs @ post @ ''}'', p3))"
| "print_array_emit_loop [] p = ([], p)"
| "print_array_emit_loop (v # vs) p =
     (let (sep, p1) = (case p of
                         None \<Rightarrow> ([], None)
                       | Some pr \<Rightarrow> (nxt_conf_json_newline @ nxt_conf_json_indentation pr,
                                    Some (pr\<lparr>more_space := False\<rparr>)));
          (b, p2) = nxt_conf_json_print_value_emit v p1;
          (bs, p3) = print_array_emit_loop vs p2
      in ('','' @ sep @ b @ bs, p3))"
| "print_object_emit_loop [] p = ([], p)"
| "print_object_emit_loop (m # ms) p =
     (let ind = (case p of None \<Rightarrow> [] | Some pr \<Rightarrow> nxt_conf_json_indentation pr);
          name = nxt_conf_json_print_string_emit (fst m);
          colon = '':'' @ (case p of None \<Rightarrow> [] | Some pr \<Rightarrow> '' '');
          (b, p1) = nxt_conf_json_print_value_emit (snd m) p
      in if ms = [] then (ind @ name @ colon @ b, p1)
         else
           let (sep, p2) =
                 (case p1 of
                    None \<Rightarrow> ([], None)
                  | Some pr \<Rightarrow>
                      if more_space pr
                      then (nxt_conf_json_newline @ nxt_conf_json_newline,
                            Some (pr\<lparr>more_space := False\<rparr>))
                      else (nxt_conf_json_newline, Some pr));
               (bs, p3) = print_object_emit_loop ms p2
           in (ind @ name @ colon @ b @ '','' @ sep @ bs, p3))"

subsection \<open>The parser\<close>

text \<open>
  Modelled from the spec: \<open>nxt_utf8_encode\<close> is not among the sources.  An escape is
  decoded to a code point and UTF-8 encoded: one to four bytes for the code points below
  \<open>0x110000\<close>.  No larger number reaches the function.
\<close>

definition nxt_utf8_encode :: "nat \<Rightarrow> string" where
  "nxt_utf8_encode u =
     (if u < 0x80 then [char_of u]
      else if u < 0x800 then [char_of (0xC0 + u div 64), char_of (0x80 + u mod 64)]
      else if u < 0x10000
      then [char_of (0xE0 + u div 4096), char_of (0x80 + u div 64 mod 64),
            char_of (0x80 + u mod 64)]
      else if u < 0x110000
      then [char_of (0xF0 + u div 262144), char_of (0x80 + u div 4096 mod 64),
            char_of (0x80 + u div 64 mod 64), char_of (0x80 + u mod 64)]
      else [])"

text \<open>
  The parsing functions take \<open>pos\<close> and \<open>end\<close>; the model takes the bytes from
  \<open>pos\<close> up to \<open>end\<close>, and a returned position is the bytes that remain.
\<close>

fun nxt_conf_json_skip_space :: "string \<Rightarrow> string" where
  "nxt_conf_json_skip_space [] = []"
| "nxt_conf_json_skip_space (ch # pos) =
     (if ch = CHR '' '' \<or> ch = CHR 0x09 \<or> ch = CR \<or> ch = LF
      then nxt_conf_json_skip_space pos else ch # pos)"

text \<open>
  \<open>nxt_conf_json_parse_string\<close>, first loop: from the byte after the opening quote it
  looks for the closing quote, checks the escapes and counts in \<open>surplus\<close> the bytes
  that decoding will save at least.  The result is the offset of the closing quote
  (\<open>last - pos\<close>) and \<open>surplus\<close>; \<open>None\<close> is the return of \<open>NULL\<close>.
\<close>

datatype sw = sw_usual | sw_escape | sw_encoded1 | sw_encoded2 | sw_encoded3 | sw_encoded4

definition is_hex :: "char \<Rightarrow> bool" where
  "is_hex ch = ((byte ch \<ge> byte CHR ''0'' \<and> byte ch \<le> byte CHR ''9'')
                \<or> (byte ch \<ge> byte CHR ''A'' \<and> byte ch \<le> byte CHR ''F''))"

fun string_scan :: "sw \<Rightarrow> nat \<Rightarrow> nat \<Rightarrow> string \<Rightarrow> (nat \<times> nat) option" where
  "string_scan state surplus n [] = None"
| "string_scan sw_usual surplus n (ch # cs) =
     (if ch = CHR 0x22 then Some (n, surplus)
      else if ch = CHR 0x5C then string_scan sw_escape surplus (n + 1) cs
      else if byte ch \<ge> byte CHR '' '' then string_scan sw_usual surplus (n + 1) cs
      else None)"
| "string_scan sw_escape surplus n (ch # cs) =
     (if ch = CHR 0x22 \<or> ch = CHR 0x5C \<or> ch = CHR ''/'' \<or> ch = CHR ''n'' \<or> ch = CHR ''r''
         \<or> ch = CHR ''t'' \<or> ch = CHR ''b'' \<or> ch = CHR ''f''
      then string_scan sw_usual (surplus + 1) (n + 1) cs
      else if ch = CHR ''u'' then string_scan sw_encoded1 (surplus + 3) (n + 1) cs
      else None)"
| "string_scan sw_encoded1 surplus n (ch # cs) =
     (if is_hex ch then string_scan sw_encoded2 surplus (n + 1) cs else None)"
| "string_scan sw_encoded2 surplus n (ch # cs) =
     (if is_hex ch then string_scan sw_encoded3 surplus (n + 1) cs else None)"
| "string_scan sw_encoded3 surplus n (ch # cs) =
     (if is_hex ch then string_scan sw_encoded4 surplus (n + 1) cs else None)"
| "string_scan sw_encoded4 surplus n (ch # cs) =
     (if is_hex ch then string_scan sw_usual surplus (n + 1) cs else None)"

text \<open>
  Second loop, entered when there is an escape: it decodes the bytes between the quotes.
  One hex digit is \<open>pos[i] - (pos[i] >= 'A' ? 'A' : '0')\<close>, added to
  \<open>utf << 4\<close> in 32 bits.  The first loop has checked every escape, so the branches
  where the text ends inside an escape are not reached; they are \<open>None\<close>.  After a
  high surrogate the code reads \<open>pos[0]\<close> and \<open>pos[1]\<close>, which are inside the text or
  its closing quote.
\<close>

definition hex_step :: "nat \<Rightarrow> char \<Rightarrow> nat" where
  "hex_step utf c =
     nat ((int utf * 16 + (int (byte c) - (if byte c \<ge> byte CHR ''A'' then int (byte CHR ''A'')
                                          else int (byte CHR ''0'')))) mod 2 ^ 32)"

definition hex4 :: "char \<Rightarrow> char \<Rightarrow> char \<Rightarrow> char \<Rightarrow> nat" where
  "hex4 a b c d = hex_step (hex_step (hex_step (hex_step 0 a) b) c) d"

fun string_decode :: "string \<Rightarrow> string option" where
  "string_decode [] = Some []"
| "string_decode (ch # pos) =
     (if ch \<noteq> CHR 0x5C then map_option ((#) ch) (string_decode pos)
      else
        (case pos of
           [] \<Rightarrow> None
         | e # pos1 \<Rightarrow>
             if e = CHR 0x22 \<or> e = CHR 0x5C \<or> e = CHR ''/''
             then map_option ((#) e) (string_decode pos1)
             else if e = CHR ''n'' then map_option ((#) LF) (string_decode pos1)
             else if e = CHR ''r'' then map_option ((#) CR) (string_decode pos1)
             else if e = CHR ''t'' then map_option ((#) (CHR 0x09)) (string_decode pos1)
             else if e = CHR ''b'' then map_option ((#) (CHR 0x08)) (string_decode pos1)
             else if e = CHR ''f'' then map_option ((#) (CHR 0x0C)) (string_decode pos1)
             else
               (case pos1 of
                  a # b # c # d # pos2 \<Rightarrow>
                    let utf = hex4 a b c d in
                    if utf < 0xd800 \<or> utf > 0xdbff
                    then map_option ((@) (nxt_utf8_encode utf)) (string_decode pos2)
                    else
                      (case pos2 of
                         b0 # b1 # a' # b' # c' # d' # pos3 \<Rightarrow>
                           if b0 \<noteq> CHR 0x5C \<or> b1 \<noteq> CHR ''u'' then None
                           else
                             let utf_high = utf; utf_low = hex4 a' b' c' d' in
                             if utf_low < 0xdc00 \<or> utf_low > 0xdfff then None
                             else map_option
                                    ((@) (nxt_utf8_encode
                                            ((utf_high - 0xd800) * 1024 + (utf_low - 0xdc00))))
                                    (string_decode pos3)
                       | _ \<Rightarrow> None)
                | _ \<Rightarrow> None)))"

text \<open>
  \<open>nxt_conf_json_parse_string\<close>; \<open>input\<close> starts at the opening quote.  The variant
  is chosen from \<open>size = last - pos - surplus\<close> before the bytes are decoded; the
  length is set again after decoding.  Allocation from the pool is taken to succeed in
  the parser.
\<close>

definition nxt_conf_json_parse_string :: "string \<Rightarrow> (nxt_conf_json_str \<times> string) option" where
  "nxt_conf_json_parse_string input =
     (let pos = tl input in
      case string_scan sw_usual 0 0 pos of
        None \<Rightarrow> None
      | Some (lst, surplus) \<Rightarrow>
          let size = lst - surplus;
              mk = (\<lambda>s. if size > NXT_CONF_JSON_STR_SIZE then JSON_STRING s
                         else JSON_SHORT_STRING s)
          in if surplus = 0 then Some (mk (take size pos), drop (lst + 1) pos)
             else (case string_decode (take lst pos) of
                     None \<Rightarrow> None
                   | Some s \<Rightarrow> Some (mk s, drop (lst + 1) pos)))"


text \<open>
  What a parsing function returns: a value and the position after it, \<open>NULL\<close>, or
  a result that depends on bytes past \<open>end\<close> (see \<open>keyword\<close> below).
\<close>

datatype 'a ret = Ret 'a | Ret_NULL | Past_end

text \<open>
  \<open>nxt_conf_json_parse_number\<close>.  The loop keeps \<open>ch\<close>, the last byte read minus
  \<open>'0'\<close> in 8 bits, and \<open>integer\<close> in 64 bits; after the loop \<open>ch\<close> is compared
  with \<open>'.'\<close>.  The decimal part of the C function is compiled out (\<open>#if 0\<close>).
\<close>

fun number_loop :: "nat \<Rightarrow> nat \<Rightarrow> string \<Rightarrow> (nat \<times> nat \<times> string) option" where
  "number_loop ch integer [] = Some (integer, ch, [])"
| "number_loop ch0 integer (c # p) =
     (let ch = (byte c + 256 - byte CHR ''0'') mod 256 in
      if ch > 9 then Some (integer, ch, c # p)
      else if integer \<ge> NXT_INT64_T_MAX div 10
              \<and> (integer > NXT_INT64_T_MAX div 10 \<or> ch > NXT_INT64_T_MAX mod 10)
      then None
      else number_loop ch ((integer * 10 + ch) mod 2 ^ 64) p)"

definition nxt_conf_json_parse_number :: "string \<Rightarrow> (nxt_conf_json_value \<times> string) ret" where
  "nxt_conf_json_parse_number input =
     (case input of
        [] \<Rightarrow> Past_end
      | c # cs \<Rightarrow>
          let negative = (c = CHR ''-'');
              pos = (if negative then cs else input)
          in case number_loop (byte c) 0 pos of
               None \<Rightarrow> Ret_NULL
             | Some (integer, ch, p) \<Rightarrow>
                 if length p = length pos
                    \<or> (length p + 1 < length pos \<and> hd pos = CHR ''0'')
                 then Ret_NULL
                 else if ch \<noteq> byte CHR ''.''
                 then Ret (JSON_INTEGER (if negative then - (word_of_nat integer)
                                         else word_of_nat integer), p)
                 else Ret_NULL)"

text \<open>
  The tests \<open>end - pos >= 4 || nxt_memcmp(pos, "true", 4) == 0\<close> of
  \<open>nxt_conf_json_parse_value\<close> (and those for \<open>false\<close> and \<open>null\<close>).  With enough
  bytes left the value is accepted and the position moves past them.  With fewer, the
  comparison reads past \<open>end\<close>: it fails on a byte before \<open>end\<close> that differs, and
  otherwise its result depends on the bytes past \<open>end\<close>.
\<close>

definition keyword :: "string \<Rightarrow> string \<Rightarrow> nxt_conf_json_value \<Rightarrow> (nxt_conf_json_value \<times> string) ret"
  where
  "keyword pos word v =
     (if length pos \<ge> length word then Ret (v, drop (length word) pos)
      else if take (length pos) word = pos then Past_end
      else Ret_NULL)"

text \<open>
  Modelled from the spec: the hash \<open>nxt_lvlhsh\<close> is not among the sources.  Object
  parsing detects duplicate keys through it, and copies the members in the iteration
  order of the hash, which is not specified.  In the model \<open>seen\<close> holds the keys
  inserted so far, an insertion of a key that is there fails, and the iteration order is
  a parameter \<open>each\<close> of the parser: the function from the members in insertion order
  to the members in iteration order.
\<close>

type_synonym lvlhsh_each = "nxt_conf_json_obj_member list \<Rightarrow> nxt_conf_json_obj_member list"

text \<open>
  \<open>nxt_conf_json_parse_value\<close>, \<open>nxt_conf_json_parse_object\<close> and
  \<open>nxt_conf_json_parse_array\<close>; the two loop functions are their \<open>for (;;)\<close> loops,
  entered at a position that is not \<open>end\<close>.
\<close>

function nxt_conf_json_parse_value ::
    "lvlhsh_each \<Rightarrow> string \<Rightarrow> (nxt_conf_json_value \<times> string) ret"
  and nxt_conf_json_parse_object ::
    "lvlhsh_each \<Rightarrow> string \<Rightarrow> (nxt_conf_json_value \<times> string) ret"
  and parse_object_loop ::
    "lvlhsh_each \<Rightarrow> string list \<Rightarrow> string \<Rightarrow> (nxt_conf_json_obj_member list \<times> string) ret"
  and nxt_conf_json_parse_array ::
    "lvlhsh_each \<Rightarrow> string \<Rightarrow> (nxt_conf_json_value \<times> string) ret"
  and parse_array_loop ::
    "lvlhsh_each \<Rightarrow> string \<Rightarrow> (nxt_conf_json_value list \<times> string) ret"
where
  "nxt_conf_json_parse_value each [] = Past_end"
| "nxt_conf_json_parse_value each (ch # cs) =
     (if ch = CHR ''{'' then nxt_conf_json_parse_object each (ch # cs)
      else if ch = CHR ''['' then nxt_conf_json_parse_array each (ch # cs)
      else if ch = CHR 0x22
      then (case nxt_conf_json_parse_string (ch # cs) of
              None \<Rightarrow> Ret_NULL
            | Some (s, pos) \<Rightarrow> Ret (JSON_STR s, pos))
      else if ch = CHR ''t'' then keyword (ch # cs) ''true'' (JSON_BOOLEAN True)
      else if ch = CHR ''f'' then keyword (ch # cs) ''false'' (JSON_BOOLEAN False)
      else if ch = CHR ''n'' then keyword (ch # cs) ''null'' JSON_NULL
      else if ch = CHR ''-'' \<or> int (byte ch) - int (byte CHR ''0'') \<le> 9
      then nxt_conf_json_parse_number (ch # cs)
      else Ret_NULL)"
| "nxt_conf_json_parse_object each [] = Past_end"
| "nxt_conf_json_parse_object each (ch # cs) =
     (case nxt_conf_json_skip_space cs of
        [] \<Rightarrow> Ret_NULL
      | c # pos \<Rightarrow>
          if c \<noteq> CHR ''}''
          then (case parse_object_loop each [] (c # pos) of
                  Ret (members, pos1) \<Rightarrow> Ret (JSON_OBJECT (each members), pos1)
                | Ret_NULL \<Rightarrow> Ret_NULL
                | Past_end \<Rightarrow> Past_end)
          else Ret (JSON_OBJECT (each []), pos))"
| "parse_object_loop each seen [] = Past_end"
| "parse_object_loop each seen (ch # cs) =
     (if ch \<noteq> CHR 0x22 then Ret_NULL
      else
        case nxt_conf_json_parse_string (ch # cs) of
          None \<Rightarrow> Ret_NULL
        | Some (name, pos1) \<Rightarrow>
            if str_bytes name \<in> set seen then Ret_NULL
            else
              (case nxt_conf_json_skip_space pos1 of
                 [] \<Rightarrow> Ret_NULL
               | c2 # pos2 \<Rightarrow>
                   if c2 \<noteq> CHR '':'' then Ret_NULL
                   else
                     (case nxt_conf_json_skip_space pos2 of
                        [] \<Rightarrow> Ret_NULL
                      | c3 # pos3 \<Rightarrow>
                          (case nxt_conf_json_parse_value each (c3 # pos3) of
                             Ret_NULL \<Rightarrow> Ret_NULL
                           | Past_end \<Rightarrow> Past_end
                           | Ret (v, pos4) \<Rightarrow>
                               (case nxt_conf_json_skip_space pos4 of
                                  [] \<Rightarrow> Ret_NULL
                                | c5 # pos5 \<Rightarrow>
                                    if c5 = CHR ''}'' then Ret ([(name, v)], pos5)
                                    else if c5 \<noteq> CHR '','' then Ret_NULL
                                    else
                                      (case nxt_conf_json_skip_space pos5 of
                                         [] \<Rightarrow> Ret_NULL
                                       | c6 # pos6 \<Rightarrow>
                                           (case parse_object_loop each (str_bytes name # seen)
                                                   (c6 # pos6) of
                                              Ret (members, pos7) \<Rightarrow>
                                                Ret ((name, v) # members, pos7)
                                            | Ret_NULL \<Rightarrow> Ret_NULL
                                            | Past_end \<Rightarrow> Past_end)))))))"
| "nxt_conf_json_parse_array each [] = Past_end"
| "nxt_conf_json_parse_array each (ch # cs) =
     (case nxt_conf_json_skip_space cs of
        [] \<Rightarrow> Ret_NULL
      | c # pos \<Rightarrow>
          if c \<noteq> CHR '']''
          then (case parse_array_loop each (c # pos) of
                  Ret (elements, pos1) \<Rightarrow> Ret (JSON_ARRAY elements, pos1)
                | Ret_NULL \<Rightarrow> Ret_NULL
                | Past_end \<Rightarrow> Past_end)
          else Ret (JSON_ARRAY [], pos))"
| "parse_array_loop each pos =
     (case nxt_conf_json_parse_value each pos of
        Ret_NULL \<Rightarrow> Ret_NULL
      | Past_end \<Rightarrow> Past_end
      | Ret (v, pos1) \<Rightarrow>
          (case nxt_conf_json_skip_space pos1 of
             [] \<Rightarrow> Ret_NULL
           | c # pos2 \<Rightarrow>
               if c = CHR '']'' then Ret ([v], pos2)
               else if c \<noteq> CHR '','' then Ret_NULL
               else
                 (case nxt_conf_json_skip_space pos2 of
                    [] \<Rightarrow> Ret_NULL
                  | c3 # pos3 \<Rightarrow>
                      (case parse_array_loop each (c3 # pos3) of
                         Ret (elements, pos4) \<Rightarrow> Ret (v # elements, pos4)
                       | Ret_NULL \<Rightarrow> Ret_NULL
                       | Past_end \<Rightarrow> Past_end))))"
  by pat_completeness auto


text \<open>
  Termination: every function returns a position after the one it was given.
\<close>

lemma skip_space_length: "length (nxt_conf_json_skip_space s) \<le> length s"
  by (induction s) auto

lemma skip_space_Cons_length:
  "nxt_conf_json_skip_space s = c # r \<Longrightarrow> length r < length s"
  using skip_space_length [of s] by simp

lemma parse_string_length:
  "nxt_conf_json_parse_string (c # s) = Some (x, r) \<Longrightarrow> length r < length (c # s)"
  by (auto simp: nxt_conf_json_parse_string_def Let_def split: option.splits if_splits)

lemma number_loop_length:
  "number_loop ch i s = Some (j, ch', r) \<Longrightarrow> length r \<le> length s"
  by (induction ch i s rule: number_loop.induct) (auto simp: Let_def split: if_splits)

lemma parse_number_length:
  "nxt_conf_json_parse_number s = Ret (v, r) \<Longrightarrow> length r < length s"
  by (auto simp: nxt_conf_json_parse_number_def Let_def
      split: list.splits option.splits if_splits dest!: number_loop_length)

lemma keyword_length:
  "keyword pos w v = Ret (x, r) \<Longrightarrow> w \<noteq> [] \<Longrightarrow> length r < length pos"
  by (cases w) (auto simp: keyword_def split: if_splits)

lemma parse_rest_shorter:
  "nxt_conf_json_parse_value_nxt_conf_json_parse_object_parse_object_loop_nxt_conf_json_parse_array_parse_array_loop_dom
     (Inl (Inl (each, pos)))
   \<Longrightarrow> nxt_conf_json_parse_value each pos = Ret (v, r) \<Longrightarrow> length r < length pos"
  "nxt_conf_json_parse_value_nxt_conf_json_parse_object_parse_object_loop_nxt_conf_json_parse_array_parse_array_loop_dom
     (Inl (Inr (each2, pos2)))
   \<Longrightarrow> nxt_conf_json_parse_object each2 pos2 = Ret (v2, r2) \<Longrightarrow> length r2 < length pos2"
  "nxt_conf_json_parse_value_nxt_conf_json_parse_object_parse_object_loop_nxt_conf_json_parse_array_parse_array_loop_dom
     (Inr (Inl (each3, seen, pos3)))
   \<Longrightarrow> parse_object_loop each3 seen pos3 = Ret (ms, r3) \<Longrightarrow> length r3 < length pos3"
  "nxt_conf_json_parse_value_nxt_conf_json_parse_object_parse_object_loop_nxt_conf_json_parse_array_parse_array_loop_dom
     (Inr (Inr (Inl (each4, pos4))))
   \<Longrightarrow> nxt_conf_json_parse_array each4 pos4 = Ret (v4, r4) \<Longrightarrow> length r4 < length pos4"
  "nxt_conf_json_parse_value_nxt_conf_json_parse_object_parse_object_loop_nxt_conf_json_parse_array_parse_array_loop_dom
     (Inr (Inr (Inr (each5, pos5))))
   \<Longrightarrow> parse_array_loop each5 pos5 = Ret (vs, r5) \<Longrightarrow> length r5 < length pos5"
proof (induct each pos and each2 pos2 and each3 seen pos3 and each4 pos4 and each5 pos5
    arbitrary: v r and v2 r2 and ms r3 and v4 r4 and vs r5
    rule: nxt_conf_json_parse_value_nxt_conf_json_parse_object_parse_object_loop_nxt_conf_json_parse_array_parse_array_loop.pinduct)
  case (1 each)
  then show ?case by (simp add: nxt_conf_json_parse_value.psimps)
next
  case (2 each ch cs)
  note eq = "2.prems" [unfolded nxt_conf_json_parse_value.psimps(2) [OF "2.hyps"(1)]]
  show ?case
  proof (cases "ch = CHR ''{''")
    case True
    then show ?thesis using eq "2.hyps"(2) by simp
  next
    case nobrace: False
    show ?thesis
    proof (cases "ch = CHR ''[''")
      case True
      then show ?thesis using eq nobrace "2.hyps"(3) by simp
    next
      case False
      note nobracket = this
      consider (str) "ch = CHR 0x22" | (t) "ch = CHR ''t''" | (f) "ch = CHR ''f''"
        | (n) "ch = CHR ''n''"
        | (other) "ch \<noteq> CHR 0x22" "ch \<noteq> CHR ''t''" "ch \<noteq> CHR ''f''" "ch \<noteq> CHR ''n''"
        by blast
      then show ?thesis
      proof cases
        case str
        then obtain s where "nxt_conf_json_parse_string (ch # cs) = Some (s, r)"
          using eq by (auto split: option.splits)
        then show ?thesis by (rule parse_string_length)
      next
        case t
        then have "keyword (ch # cs) ''true'' (JSON_BOOLEAN True) = Ret (v, r)"
          using eq by simp
        then show ?thesis by (rule keyword_length) simp
      next
        case f
        then have "keyword (ch # cs) ''false'' (JSON_BOOLEAN False) = Ret (v, r)"
          using eq by simp
        then show ?thesis by (rule keyword_length) simp
      next
        case n
        then have "keyword (ch # cs) ''null'' JSON_NULL = Ret (v, r)"
          using eq by simp
        then show ?thesis by (rule keyword_length) simp
      next
        case other
        then have "nxt_conf_json_parse_number (ch # cs) = Ret (v, r)"
          using eq nobrace nobracket by (simp split: if_splits)
        then show ?thesis by (rule parse_number_length)
      qed
    qed
  qed
next
  case (3 each)
  then show ?case by (simp add: nxt_conf_json_parse_object.psimps)
next
  case (4 each ch cs)
  note eq = "4.prems" [unfolded nxt_conf_json_parse_object.psimps(2) [OF "4.hyps"(1)]]
  show ?case
  proof (cases "nxt_conf_json_skip_space cs")
    case Nil
    then show ?thesis using eq by simp
  next
    case (Cons c pos)
    have l: "length pos < length cs" using Cons by (rule skip_space_Cons_length)
    show ?thesis
    proof (cases "c = CHR ''}''")
      case True
      then show ?thesis using eq Cons l by auto
    next
      case False
      then obtain ms where "parse_object_loop each [] (c # pos) = Ret (ms, r2)"
        using eq Cons by (auto split: ret.splits)
      from "4.hyps"(2) [OF Cons False this] l show ?thesis by simp
    qed
  qed
next
  case (5 each seen)
  then show ?case by (simp add: parse_object_loop.psimps)
next
  case (6 each seen ch cs)
  note eq = "6.prems" [unfolded parse_object_loop.psimps(2) [OF "6.hyps"(1)]]
  have q: "\<not> ch \<noteq> CHR 0x22" using eq by (auto split: if_splits)
  obtain name pos1 where ps: "nxt_conf_json_parse_string (ch # cs) = Some (name, pos1)"
    using eq q by (cases "nxt_conf_json_parse_string (ch # cs)") auto
  have l1: "length pos1 < length (ch # cs)" using ps by (rule parse_string_length)
  have ns: "str_bytes name \<notin> set seen" using eq q ps by (auto split: if_splits)
  show ?case
  proof (cases "nxt_conf_json_skip_space pos1")
    case Nil
    then show ?thesis using eq q ps ns by simp
  next
    case s1: (Cons c2 pos2)
    have l2: "length pos2 < length pos1" using s1 by (rule skip_space_Cons_length)
    have colon: "\<not> c2 \<noteq> CHR '':''" using eq q ps ns s1 by (auto split: if_splits)
    show ?thesis
    proof (cases "nxt_conf_json_skip_space pos2")
      case Nil
      then show ?thesis using eq q ps ns s1 colon by simp
    next
      case s2: (Cons c3 pos3)
      have l3: "length pos3 < length pos2" using s2 by (rule skip_space_Cons_length)
      obtain v pos4 where pv: "nxt_conf_json_parse_value each (c3 # pos3) = Ret (v, pos4)"
        using eq q ps ns s1 colon s2
        by (cases "nxt_conf_json_parse_value each (c3 # pos3)") auto
      have l4: "length pos4 < length (c3 # pos3)"
        using "6.hyps"(2) [OF q ps refl ns s1 colon s2 pv] .
      show ?thesis
      proof (cases "nxt_conf_json_skip_space pos4")
        case Nil
        then show ?thesis using eq q ps ns s1 colon s2 pv by simp
      next
        case s4: (Cons c5 pos5)
        have l5: "length pos5 < length pos4" using s4 by (rule skip_space_Cons_length)
        show ?thesis
        proof (cases "c5 = CHR ''}''")
          case True
          then show ?thesis using eq q ps ns s1 colon s2 pv s4 l1 l2 l3 l4 l5 by simp
        next
          case nb: False
          then have comma: "\<not> c5 \<noteq> CHR '',''"
            using eq q ps ns s1 colon s2 pv s4 by (auto split: if_splits)
          show ?thesis
          proof (cases "nxt_conf_json_skip_space pos5")
            case Nil
            then show ?thesis using eq q ps ns s1 colon s2 pv s4 nb comma by simp
          next
            case s5: (Cons c6 pos6)
            have l6: "length pos6 < length pos5" using s5 by (rule skip_space_Cons_length)
            obtain ms' where
              "parse_object_loop each (str_bytes name # seen) (c6 # pos6) = Ret (ms', r3)"
              using eq q ps ns s1 colon s2 pv s4 nb comma s5 by (auto split: ret.splits)
            from "6.hyps"(3) [OF q ps refl ns s1 colon s2 pv refl s4 nb comma s5 this]
              l1 l2 l3 l4 l5 l6
            show ?thesis by simp
          qed
        qed
      qed
    qed
  qed
next
  case (7 each)
  then show ?case by (simp add: nxt_conf_json_parse_array.psimps)
next
  case (8 each ch cs)
  note eq = "8.prems" [unfolded nxt_conf_json_parse_array.psimps(2) [OF "8.hyps"(1)]]
  show ?case
  proof (cases "nxt_conf_json_skip_space cs")
    case Nil
    then show ?thesis using eq by simp
  next
    case (Cons c pos)
    have l: "length pos < length cs" using Cons by (rule skip_space_Cons_length)
    show ?thesis
    proof (cases "c = CHR '']''")
      case True
      then show ?thesis using eq Cons l by auto
    next
      case False
      then obtain ms where "parse_array_loop each (c # pos) = Ret (ms, r4)"
        using eq Cons by (auto split: ret.splits)
      from "8.hyps"(2) [OF Cons False this] l show ?thesis by simp
    qed
  qed
next
  case (9 each pos)
  note eq = "9.prems" [unfolded parse_array_loop.psimps [OF "9.hyps"(1)]]
  obtain v pos1 where pv: "nxt_conf_json_parse_value each pos = Ret (v, pos1)"
    using eq by (cases "nxt_conf_json_parse_value each pos") auto
  have l1: "length pos1 < length pos" using pv by (rule "9.hyps"(2))
  show ?case
  proof (cases "nxt_conf_json_skip_space pos1")
    case Nil
    then show ?thesis using eq pv by simp
  next
    case s1: (Cons c pos2)
    have l2: "length pos2 < length pos1" using s1 by (rule skip_space_Cons_length)
    show ?thesis
    proof (cases "c = CHR '']''")
      case True
      then show ?thesis using eq pv s1 l1 l2 by simp
    next
      case nc: False
      then have comma: "\<not> c \<noteq> CHR '',''" using eq pv s1 by (auto split: if_splits)
      show ?thesis
      proof (cases "nxt_conf_json_skip_space pos2")
        case Nil
        then show ?thesis using eq pv s1 nc comma by simp
      next
        case s2: (Cons c3 pos3)
        have l3: "length pos3 < length pos2" using s2 by (rule skip_space_Cons_length)
        obtain es where "parse_array_loop each (c3 # pos3) = Ret (es, r5)"
          using eq pv s1 nc comma s2 by (auto split: ret.splits)
        from "9.hyps"(3) [OF pv refl s1 nc comma s2 this] l1 l2 l3 show ?thesis by simp
      qed
    qed
  qed
qed


termination nxt_conf_json_parse_value
proof (relation "measure (\<lambda>x. case x of
          Inl (Inl (each, pos)) \<Rightarrow> 3 * length pos + 1
        | Inl (Inr (each, pos)) \<Rightarrow> 3 * length pos
        | Inr (Inl (each, seen, pos)) \<Rightarrow> 3 * length pos + 2
        | Inr (Inr (Inl (each, pos))) \<Rightarrow> 3 * length pos
        | Inr (Inr (Inr (each, pos))) \<Rightarrow> 3 * length pos + 2)", goal_cases)
  case 1
  then show ?case by simp
next
  case (2 each ch cs)
  then show ?case by simp
next
  case (3 each ch cs)
  then show ?case by simp
next
  case (4 each ch cs x21 x22)
  then show ?case using skip_space_Cons_length [of cs x21 x22] by simp
next
  case (5 each seen ch cs x2 x y x21 x22 x21a x22a)
  then show ?case
    using parse_string_length [of ch cs x y] skip_space_Cons_length [of y x21 x22]
      skip_space_Cons_length [of x22 x21a x22a]
    by simp
next
  case (6 each seen ch cs x2 x y x21 x22 x21a x22a x1 xa ya x21b x22b x21c x22c)
  then show ?case
    using parse_string_length [of ch cs x y] skip_space_Cons_length [of y x21 x22]
      skip_space_Cons_length [of x22 x21a x22a]
      parse_rest_shorter(1) [of each "x21a # x22a" xa ya]
      skip_space_Cons_length [of ya x21b x22b]
      skip_space_Cons_length [of x22b x21c x22c]
    by simp
next
  case (7 each ch cs x21 x22)
  then show ?case using skip_space_Cons_length [of cs x21 x22] by simp
next
  case (8 each pos)
  then show ?case by simp
next
  case (9 each pos x1 x y x21 x22 x21a x22a)
  then show ?case
    using parse_rest_shorter(1) [of each pos x y]
      skip_space_Cons_length [of y x21 x22]
      skip_space_Cons_length [of x22 x21a x22a]
    by simp
qed

declare nxt_conf_json_parse_value.simps [simp del]
  nxt_conf_json_parse_object.simps [simp del] parse_object_loop.simps [simp del]
  nxt_conf_json_parse_array.simps [simp del] parse_array_loop.simps [simp del]

text \<open>\<open>nxt_conf_json_parse\<close>: one value, with white space around it, and nothing else.\<close>

definition nxt_conf_json_parse :: "lvlhsh_each \<Rightarrow> string \<Rightarrow> nxt_conf_json_value ret" where
  "nxt_conf_json_parse each input =
     (case nxt_conf_json_skip_space input of
        [] \<Rightarrow> Ret_NULL
      | c # pos \<Rightarrow>
          (case nxt_conf_json_parse_value each (c # pos) of
             Ret_NULL \<Rightarrow> Ret_NULL
           | Past_end \<Rightarrow> Past_end
           | Ret (v, pos1) \<Rightarrow>
               if nxt_conf_json_skip_space pos1 \<noteq> [] then Ret_NULL else Ret v))"


subsection \<open>The edit engine\<close>

text \<open>
  Modelled from the spec: the memory pool (\<open>nxt_mp_get\<close>, \<open>nxt_mp_zget\<close>,
  \<open>nxt_str_dup\<close>) is not among the sources.  An allocation returns memory or \<open>NULL\<close>.
  A pool is the number of allocations it still grants, \<open>\<infinity>\<close> for a pool that never
  fails.  The functions below return at the first allocation that fails, so the number of
  allocations before it is all that a run depends on.
\<close>

type_synonym nxt_mp = enat

definition nxt_mp_get :: "nxt_mp \<Rightarrow> nxt_mp option" where
  "nxt_mp_get pool = (if pool = 0 then None else Some (pool - 1))"

text \<open>
  Modelled from the spec: the return codes of \<open>nxt_int_t\<close> functions, out of which the
  edit engine uses these three.
\<close>

datatype nxt_int = NXT_OK | NXT_DECLINED | NXT_ERROR

text \<open>
  \<open>nxt_conf_json_op_t\<close>: the index of a member, the action with its \<open>ctx\<close> (the
  operations for the member's value, the member to create, or the new value), and the
  next operation of the same object.
\<close>

datatype op_action =
    NXT_CONF_JSON_OP_PASS "nxt_conf_json_op option"
  | NXT_CONF_JSON_OP_CREATE nxt_conf_json_obj_member
  | NXT_CONF_JSON_OP_REPLACE nxt_conf_json_value
  | NXT_CONF_JSON_OP_DELETE
and nxt_conf_json_op =
    Op (op_index: nat) (op_action: op_action) (op_next: "nxt_conf_json_op option")

text \<open>
  \<open>nxt_conf_json_path_next_token\<close>; \<open>start\<close> is the bytes from \<open>parse->start\<close> up to
  \<open>parse->end\<close>.  The first byte is passed over, the token goes up to the next slash,
  and the result is the token, the bytes from \<open>parse->start\<close> on, and \<open>parse->last\<close>.
\<close>

definition nxt_conf_json_path_next_token :: "string \<Rightarrow> string \<times> string \<times> bool" where
  "nxt_conf_json_path_next_token start =
     (let p = drop 1 start;
          token = takeWhile (\<lambda>c. c \<noteq> CHR ''/'') p;
          rest = dropWhile (\<lambda>c. c \<noteq> CHR ''/'') p
      in (token, rest, rest = []))"

text \<open>
  \<open>nxt_conf_json_object_get_member\<close> returns the value of the first member with the given
  name, and its number \<open>n\<close> through the pointer to the 32-bit \<open>index\<close>.  Modelled from the
  spec: \<open>nxt_strstr_eq\<close> is not among the sources; two strings are equal when their bytes
  are.
\<close>

fun get_member_loop ::
  "nxt_conf_json_obj_member list \<Rightarrow> string \<Rightarrow> nat \<Rightarrow> (nxt_conf_json_value \<times> nat) option" where
  "get_member_loop [] name n = None"
| "get_member_loop (member # members) name n =
     (if str_bytes (fst member) = name then Some (snd member, n mod 2 ^ 32)
      else get_member_loop members name (n + 1))"

definition nxt_conf_json_object_get_member ::
  "nxt_conf_json_value \<Rightarrow> string \<Rightarrow> (nxt_conf_json_value \<times> nat) option" where
  "nxt_conf_json_object_get_member v name =
     (case v of JSON_OBJECT members \<Rightarrow> get_member_loop members name 0 | _ \<Rightarrow> None)"

text \<open>
  \<open>nxt_conf_json_op_compile\<close>, one turn of its loop for each token of the path.  The
  result is the return code, the operations at \<open>*ops\<close> and the pool.  An operation is
  allocated zeroed (\<open>op_zero\<close>) and linked into its parent before the token is looked up,
  so what has been built is at \<open>*ops\<close> also when the code is not \<open>NXT_OK\<close>; when the
  first allocation fails, \<open>*ops\<close> is not written.
\<close>

definition op_zero :: nxt_conf_json_op where
  "op_zero = Op 0 (NXT_CONF_JSON_OP_PASS None) None"

function nxt_conf_json_op_compile ::
  "nxt_mp \<Rightarrow> nxt_conf_json_value \<Rightarrow> nxt_conf_json_value option \<Rightarrow> string \<Rightarrow>
   nxt_int \<times> nxt_conf_json_op option \<times> nxt_mp" where
  "nxt_conf_json_op_compile pool object v path =
     (case nxt_mp_get pool of
        None \<Rightarrow> (NXT_ERROR, None, pool)
      | Some pool1 \<Rightarrow>
          let (token, rest, last) = nxt_conf_json_path_next_token path;
              found = nxt_conf_json_object_get_member object token
          in if \<not> last
             then (case found of
                     None \<Rightarrow> (NXT_DECLINED, Some op_zero, pool1)
                   | Some (child, index) \<Rightarrow>
                       (case nxt_conf_json_op_compile pool1 child v rest of
                          (rc, sub, pool2) \<Rightarrow>
                            (rc, Some (Op index (NXT_CONF_JSON_OP_PASS sub) None), pool2)))
             else (case v of
                     None \<Rightarrow>
                       (case found of
                          None \<Rightarrow> (NXT_DECLINED, Some op_zero, pool1)
                        | Some (child, index) \<Rightarrow>
                            (NXT_OK, Some (Op index NXT_CONF_JSON_OP_DELETE None), pool1))
                   | Some new_value \<Rightarrow>
                       (case found of
                          None \<Rightarrow>
                            (case nxt_mp_get pool1 of
                               None \<Rightarrow> (NXT_ERROR, Some op_zero, pool1)
                             | Some pool2 \<Rightarrow>
                                 if length token > NXT_CONF_JSON_STR_SIZE
                                 then (case nxt_mp_get pool2 of
                                         None \<Rightarrow> (NXT_ERROR, Some op_zero, pool2)
                                       | Some pool3 \<Rightarrow>
                                           (NXT_OK,
                                            Some (Op 0 (NXT_CONF_JSON_OP_CREATE
                                                          (JSON_STRING token, new_value)) None),
                                            pool3))
                                 else (NXT_OK,
                                       Some (Op 0 (NXT_CONF_JSON_OP_CREATE
                                                     (JSON_SHORT_STRING token, new_value)) None),
                                       pool2))
                        | Some (child, index) \<Rightarrow>
                            (NXT_OK, Some (Op index (NXT_CONF_JSON_OP_REPLACE new_value) None),
                             pool1))))"
  by pat_completeness auto
termination
proof (relation "measure (\<lambda>(pool, object, v, path). length path)", goal_cases)
  case 1
  then show ?case by simp
next
  case prems: (2 pool object v path pool1 x token y rest last)
  have r: "rest = dropWhile (\<lambda>c. c \<noteq> CHR ''/'') (drop 1 path)" and "rest \<noteq> []"
    using prems by (auto simp: nxt_conf_json_path_next_token_def Let_def)
  then have "path \<noteq> []" by auto
  then show ?case
    using length_dropWhile_le [of "\<lambda>c. c \<noteq> CHR ''/''" "drop 1 path"] r
    by (cases path) auto
qed

text \<open>
  The result of a copying function: \<open>NXT_OK\<close> with the value written to \<open>dst\<close>, or no
  value.  \<open>Copy_ERROR\<close> is the return of \<open>NXT_ERROR\<close>.  The loop of
  \<open>nxt_conf_json_copy_object\<close> trusts its operations: with an index that is not one of
  the object it reads past the members of \<open>src\<close> or writes past those allocated for
  \<open>dst\<close> (\<open>Out_of_bounds\<close>), or it never ends (\<open>Never_ends\<close>).
\<close>

datatype copy_fail = Copy_ERROR | Out_of_bounds | Never_ends

datatype 'a copied = Copied 'a nxt_mp | Failed copy_fail

text \<open>
  A member's name is copied by \<open>nxt_conf_json_copy_value\<close> without operations: a long
  string is duplicated in the pool, a short one is copied in place.
\<close>

definition copy_name :: "nxt_mp \<Rightarrow> nxt_conf_json_str \<Rightarrow> nxt_conf_json_str copied" where
  "copy_name pool name =
     (case name of
        JSON_STRING s \<Rightarrow>
          (case nxt_mp_get pool of None \<Rightarrow> Failed Copy_ERROR | Some pool1 \<Rightarrow> Copied name pool1)
      | JSON_SHORT_STRING s \<Rightarrow> Copied name pool)"

text \<open>The operations of one object from \<open>op\<close> on, along \<open>next\<close>.\<close>

fun op_chain_length :: "nxt_conf_json_op option \<Rightarrow> nat" where
  "op_chain_length None = 0"
| "op_chain_length (Some (Op i a n)) = Suc (op_chain_length n)"

text \<open>
  The head of \<open>nxt_conf_json_copy_object\<close>: \<open>count\<close> is the count of the source, one
  more when the first operation creates a member and one less when it deletes one (in
  the 64 bits of \<open>nxt_uint_t\<close>), and \<open>index\<close> is where the copying of members stops for
  the next operation.
\<close>

definition object_count :: "nat \<Rightarrow> nxt_conf_json_op option \<Rightarrow> nat" where
  "object_count n op =
     (case op of
        Some (Op i (NXT_CONF_JSON_OP_CREATE m) nx) \<Rightarrow> (n + 1) mod 2 ^ 64
      | Some (Op i NXT_CONF_JSON_OP_DELETE nx) \<Rightarrow> (n + 2 ^ 64 - 1) mod 2 ^ 64
      | _ \<Rightarrow> n)"

definition next_index :: "nat \<Rightarrow> nxt_conf_json_op option \<Rightarrow> nat" where
  "next_index n op =
     (case op of
        None \<Rightarrow> n
      | Some (Op i (NXT_CONF_JSON_OP_CREATE m) nx) \<Rightarrow> n
      | Some (Op i a nx) \<Rightarrow> i)"

text \<open>
  \<open>nxt_conf_json_copy_value\<close> and \<open>nxt_conf_json_copy_object\<close>.  \<open>copy_array_loop\<close> is
  the loop over the elements of an array.  \<open>copy_object_loop\<close> is one turn of the
  \<open>do\<close> loop of \<open>nxt_conf_json_copy_object\<close>, with \<open>s\<close>, \<open>index\<close>, \<open>pass_op\<close> and
  \<open>op\<close> as the code has them; \<open>dst\<close> holds the members written so far, so \<open>d\<close> is its
  length.  \<open>copy_members\<close> is the inner \<open>while\<close> loop: it copies the members from
  \<open>s\<close> up to \<open>index\<close>, their values with \<open>pass_op\<close>, and \<open>room\<close> is \<open>count - d\<close>.
\<close>

function nxt_conf_json_copy_value ::
    "nxt_mp \<Rightarrow> nxt_conf_json_value \<Rightarrow> nxt_conf_json_op option \<Rightarrow> nxt_conf_json_value copied"
  and copy_array_loop ::
    "nxt_mp \<Rightarrow> nxt_conf_json_value list \<Rightarrow> nxt_conf_json_value list copied"
  and nxt_conf_json_copy_object ::
    "nxt_mp \<Rightarrow> nxt_conf_json_obj_member list \<Rightarrow> nxt_conf_json_op option \<Rightarrow>
     nxt_conf_json_value copied"
  and copy_object_loop ::
    "nxt_mp \<Rightarrow> nxt_conf_json_obj_member list \<Rightarrow> nat \<Rightarrow> nat \<Rightarrow> nat \<Rightarrow>
     nxt_conf_json_op option \<Rightarrow> nxt_conf_json_op option \<Rightarrow> nxt_conf_json_obj_member list \<Rightarrow>
     nxt_conf_json_value copied"
  and copy_members ::
    "nxt_mp \<Rightarrow> nxt_conf_json_obj_member list \<Rightarrow> nxt_conf_json_op option \<Rightarrow> nat \<Rightarrow>
     nxt_conf_json_obj_member list copied"
where
  "nxt_conf_json_copy_value pool src op =
     (if op \<noteq> None \<and> (case src of JSON_OBJECT ms \<Rightarrow> False | _ \<Rightarrow> True)
      then Failed Copy_ERROR
      else
        case src of
          JSON_STR (JSON_STRING s) \<Rightarrow>
            (case nxt_mp_get pool of
               None \<Rightarrow> Failed Copy_ERROR
             | Some pool1 \<Rightarrow> Copied src pool1)
        | JSON_ARRAY elements \<Rightarrow>
            (case nxt_mp_get pool of
               None \<Rightarrow> Failed Copy_ERROR
             | Some pool1 \<Rightarrow>
                 (case copy_array_loop pool1 elements of
                    Copied elements1 pool2 \<Rightarrow> Copied (JSON_ARRAY elements1) pool2
                  | Failed e \<Rightarrow> Failed e))
        | JSON_OBJECT members \<Rightarrow> nxt_conf_json_copy_object pool members op
        | _ \<Rightarrow> Copied src pool)"
| "copy_array_loop pool [] = Copied [] pool"
| "copy_array_loop pool (v # vs) =
     (case nxt_conf_json_copy_value pool v None of
        Failed e \<Rightarrow> Failed e
      | Copied v1 pool1 \<Rightarrow>
          (case copy_array_loop pool1 vs of
             Failed e \<Rightarrow> Failed e
           | Copied vs1 pool2 \<Rightarrow> Copied (v1 # vs1) pool2))"
| "nxt_conf_json_copy_object pool members op =
     (let cnt = object_count (length members) op in
      case nxt_mp_get pool of
        None \<Rightarrow> Failed Copy_ERROR
      | Some pool1 \<Rightarrow> copy_object_loop pool1 members cnt 0 0 None op [])"
| "copy_object_loop pool members cnt s index0 pass_op op dst =
     (let index = (if pass_op = None then next_index (length members) op else index0) in
      if index < s \<or> length members < index
      then (case copy_members pool (drop s members) pass_op (cnt - length dst) of
              Failed e \<Rightarrow> Failed e
            | Copied ms pool1 \<Rightarrow> Failed Out_of_bounds)
      else
        case copy_members pool (take (index - s) (drop s members)) pass_op (cnt - length dst) of
          Failed e \<Rightarrow> Failed e
        | Copied ms pool1 \<Rightarrow>
            let dst1 = dst @ ms in
            if pass_op \<noteq> None
            then (if length dst1 \<noteq> cnt
                  then copy_object_loop pool1 members cnt index index None op dst1
                  else Copied (JSON_OBJECT dst1) pool1)
            else
              (case op of
                 None \<Rightarrow>
                   if length dst1 \<noteq> cnt then Failed Never_ends
                   else Copied (JSON_OBJECT dst1) pool1
               | Some (Op i (NXT_CONF_JSON_OP_PASS sub) nx) \<Rightarrow>
                   if length dst1 \<noteq> cnt
                   then copy_object_loop pool1 members cnt index (index + 1) sub nx dst1
                   else Copied (JSON_OBJECT dst1) pool1
               | Some (Op i (NXT_CONF_JSON_OP_CREATE member) nx) \<Rightarrow>
                   if cnt \<le> length dst1 then Failed Out_of_bounds
                   else
                     (case copy_name pool1 (fst member) of
                        Failed e \<Rightarrow> Failed e
                      | Copied name pool2 \<Rightarrow>
                          let dst2 = dst1 @ [(name, snd member)] in
                          if length dst2 \<noteq> cnt
                          then copy_object_loop pool2 members cnt index index None nx dst2
                          else Copied (JSON_OBJECT dst2) pool2)
               | Some (Op i (NXT_CONF_JSON_OP_REPLACE v) nx) \<Rightarrow>
                   if length members \<le> index \<or> cnt \<le> length dst1 then Failed Out_of_bounds
                   else
                     (case copy_name pool1 (fst (members ! index)) of
                        Failed e \<Rightarrow> Failed e
                      | Copied name pool2 \<Rightarrow>
                          let dst2 = dst1 @ [(name, v)] in
                          if length dst2 \<noteq> cnt
                          then copy_object_loop pool2 members cnt (index + 1) index None nx dst2
                          else Copied (JSON_OBJECT dst2) pool2)
               | Some (Op i NXT_CONF_JSON_OP_DELETE nx) \<Rightarrow>
                   if length dst1 \<noteq> cnt
                   then copy_object_loop pool1 members cnt (index + 1) index None nx dst1
                   else Copied (JSON_OBJECT dst1) pool1))"
| "copy_members pool [] pass_op room = Copied [] pool"
| "copy_members pool (m # ms) pass_op room =
     (if room = 0 then Failed Out_of_bounds
      else
        case copy_name pool (fst m) of
          Failed e \<Rightarrow> Failed e
        | Copied name pool1 \<Rightarrow>
            (case nxt_conf_json_copy_value pool1 (snd m) pass_op of
               Failed e \<Rightarrow> Failed e
             | Copied v pool2 \<Rightarrow>
                 (case copy_members pool2 ms pass_op (room - 1) of
                    Failed e \<Rightarrow> Failed e
                  | Copied ms1 pool3 \<Rightarrow> Copied ((name, v) # ms1) pool3)))"
  by pat_completeness auto

lemma size_list_take_drop: "size_list f (take n (drop s xs)) \<le> size_list f xs"
proof -
  have "size_list f xs = size_list f (take s xs) + size_list f (drop s xs)"
    by (metis append_take_drop_id size_list_append)
  moreover have "size_list f (drop s xs)
      = size_list f (take n (drop s xs)) + size_list f (drop n (drop s xs))"
    by (metis append_take_drop_id size_list_append)
  ultimately show ?thesis by simp
qed

lemma size_list_drop: "size_list f (drop s xs) \<le> size_list f xs"
  using size_list_take_drop [of f "length xs" s xs] by simp

termination nxt_conf_json_copy_value
  apply (relation "inv_image (less_than <*lex*> less_than) (\<lambda>x. case x of
     Inl (Inl (pool, src, op)) \<Rightarrow> (size src, 0)
   | Inl (Inr (pool, vs)) \<Rightarrow> (size_list size vs, 0)
   | Inr (Inl (pool, ms, op)) \<Rightarrow>
       (size_list (size_prod (\<lambda>x. 0) size) ms, 2 * op_chain_length op + 4)
   | Inr (Inr (Inl (pool, ms, cnt, s, index0, pass_op, op, dst))) \<Rightarrow>
       (size_list (size_prod (\<lambda>x. 0) size) ms,
        2 * op_chain_length op + (if pass_op = None then 0 else 1) + 1)
   | Inr (Inr (Inr (pool, ms, pass_op, room))) \<Rightarrow>
       (size_list (size_prod (\<lambda>x. 0) size) ms, 0))")
                 apply (simp_all (no_asm_simp))
  subgoal by (intro wf_inv_image wf_lex_prod wf_less_than)
  subgoal for members s
    using size_list_drop [of "size_prod (\<lambda>x. 0) size" s members] by linarith
  subgoal for members s index0 pass_op op
    using size_list_take_drop [of "size_prod (\<lambda>x. 0) size" "index0 - s" s members]
      size_list_take_drop [of "size_prod (\<lambda>x. 0) size" "next_index (length members) op - s"
        s members]
    by linarith
  subgoal for pool m
    by (cases m) simp
  done

declare nxt_conf_json_copy_value.simps [simp del] nxt_conf_json_copy_object.simps [simp del]
  copy_object_loop.simps [simp del] nxt_conf_json_op_compile.simps [simp del]

text \<open>
  \<open>nxt_conf_json_clone_value\<close> allocates the value and copies into it; it returns
  \<open>NULL\<close> when the allocation fails and when the copying returns \<open>NXT_ERROR\<close>.
\<close>

definition nxt_conf_json_clone_value ::
  "nxt_mp \<Rightarrow> nxt_conf_json_value \<Rightarrow> nxt_conf_json_op option \<Rightarrow> nxt_conf_json_value copied" where
  "nxt_conf_json_clone_value pool v op =
     (case nxt_mp_get pool of
        None \<Rightarrow> Failed Copy_ERROR
      | Some pool1 \<Rightarrow> nxt_conf_json_copy_value pool1 v op)"


section \<open>Properties of the connection engine\<close>

lemma status_line_411:
  "status_line NXT_HTTP_LENGTH_REQUIRED = ''HTTP/1.1 411 Length Required'' @ CRLF"
  by (simp add: status_line_def NXT_HTTP_LENGTH_REQUIRED_def NXT_HTTP_OK_def
      NXT_HTTP_LAST_SUCCESS_def NXT_HTTP_MULTIPLE_CHOICES_def NXT_HTTP_LAST_REDIRECTION_def
      NXT_HTTP_BAD_REQUEST_def NXT_HTTP_LAST_CLIENT_ERROR_def nxt_http_success_def
      nxt_http_redirection_def nxt_http_client_error_def)

lemma status_line_501:
  "status_line NXT_HTTP_NOT_IMPLEMENTED = ''HTTP/1.1 501 Not Implemented'' @ CRLF"
  by (simp add: status_line_def NXT_HTTP_NOT_IMPLEMENTED_def NXT_HTTP_OK_def
      NXT_HTTP_LAST_SUCCESS_def NXT_HTTP_MULTIPLE_CHOICES_def NXT_HTTP_LAST_REDIRECTION_def
      NXT_HTTP_BAD_REQUEST_def NXT_HTTP_LAST_CLIENT_ERROR_def
      NXT_HTTP_INTERNAL_SERVER_ERROR_def NXT_HTTP_LAST_SERVER_ERROR_def nxt_http_success_def
      nxt_http_redirection_def nxt_http_client_error_def nxt_http_server_error_def)

text \<open>
  C7.  Once the Transfer-Encoding handler has seen a field, body reading ends in the error
  response: with status 411 Length Required when the field's value is exactly
  \<open>chunked\<close>, with 501 Not Implemented for every other value.  In both cases the state
  handed to the error response has keepalive off, and nothing else of it has changed.
\<close>

theorem C7_transfer_encoding_rejected:
  "nxt_h1p_request_body_read alloc_ok (nxt_h1p_transfer_encoding h1p f) r c buffers =
     (((nxt_h1p_transfer_encoding h1p f)\<lparr>keepalive := False\<rparr>, r, c, buffers),
      Request_error (if field_value f = ''chunked'' then NXT_HTTP_LENGTH_REQUIRED
                     else NXT_HTTP_NOT_IMPLEMENTED))
   \<and> NXT_HTTP_LENGTH_REQUIRED = 411 \<and> NXT_HTTP_NOT_IMPLEMENTED = 501
   \<and> status_line NXT_HTTP_LENGTH_REQUIRED = ''HTTP/1.1 411 Length Required'' @ CRLF
   \<and> status_line NXT_HTTP_NOT_IMPLEMENTED = ''HTTP/1.1 501 Not Implemented'' @ CRLF"
proof -
  have "nxt_h1p_request_body_read alloc_ok (nxt_h1p_transfer_encoding h1p f) r c buffers =
     (((nxt_h1p_transfer_encoding h1p f)\<lparr>keepalive := False\<rparr>, r, c, buffers),
      Request_error (if field_value f = ''chunked'' then NXT_HTTP_LENGTH_REQUIRED
                     else NXT_HTTP_NOT_IMPLEMENTED))"
    by (auto simp: nxt_h1p_request_body_read_def nxt_h1p_transfer_encoding_def Let_def)
  then show ?thesis
    using status_line_411 status_line_501
    by (simp add: NXT_HTTP_LENGTH_REQUIRED_def NXT_HTTP_NOT_IMPLEMENTED_def)
qed

lemma fields_bytes_length: "length (fields_bytes fs) = fields_size fs"
  by (induction fs) simp_all

text \<open>
  The header parser sets the keepalive flag to the default of the request's version, and
  the handlers of the request fields and of body reading only ever switch it off: the flag
  of a connection is on only in HTTP/1.1.
\<close>

lemma keepalive_header_parse_done:
  "keepalive (nxt_h1p_header_parse_done h1p) \<longrightarrow>
     keepalive_default (version_minor (nxt_h1p_header_parse_done h1p))"
  by (simp add: nxt_h1p_header_parse_done_def)

lemma keepalive_connection:
  "keepalive h1p \<longrightarrow> keepalive_default (version_minor h1p) \<Longrightarrow>
   keepalive (nxt_h1p_connection h1p f) \<longrightarrow>
     keepalive_default (version_minor (nxt_h1p_connection h1p f))"
  by (simp add: nxt_h1p_connection_def)

lemma keepalive_transfer_encoding:
  "keepalive h1p \<longrightarrow> keepalive_default (version_minor h1p) \<Longrightarrow>
   keepalive (nxt_h1p_transfer_encoding h1p f) \<longrightarrow>
     keepalive_default (version_minor (nxt_h1p_transfer_encoding h1p f))"
  by (simp add: nxt_h1p_transfer_encoding_def Let_def)

lemma keepalive_request_body_read:
  "keepalive h1p \<longrightarrow> keepalive_default (version_minor h1p) \<Longrightarrow>
   nxt_h1p_request_body_read alloc_ok h1p r c buffers = ((h1p', r', c', buffers'), ev) \<Longrightarrow>
   keepalive h1p' \<longrightarrow> keepalive_default (version_minor h1p')"
  by (auto simp: nxt_h1p_request_body_read_def Let_def
      split: nxt_http_te.splits if_splits option.splits)

text \<open>
  C8.  Whenever its buffer is allocated, the serialiser writes the header: the status
  line, the response fields, the Connection part, and the chunked line or the closing
  CRLF.  The Connection part is a line exactly when the connection's keepalive flag differs
  from the default of the request's HTTP version, \<open>Connection: keep-alive\<close> when the
  flag is on and \<open>Connection: close\<close> when it is off, and nothing otherwise.  The flag
  is the one the connection has when the line is decided, which is also the one the
  serialiser leaves: the given flag, switched off first for an HTTP/1.0 response without a
  content length.  It is the given flag itself whenever that is on only in HTTP/1.1, as in
  every state the handlers above produce.  The chunked flag is taken to be set on entry
  only where the serialiser sets it itself, for an HTTP/1.1 response without a content
  length; it is then set on return exactly for such a response.
\<close>

theorem C8_connection_line:
  assumes "alloc_ok"
    and "chunked h1p \<longrightarrow>
           version_minor h1p \<noteq> CHR ''0'' \<and>
           (case resp_content_length r of None \<Rightarrow> True | Some f \<Rightarrow> field_skip f)"
  shows "\<exists>h1p' r' c' hdr.
           nxt_h1p_request_header_send alloc_ok h1p r c = ((h1p', r', c'), Conn_write)
         \<and> conn_write c' = Some hdr
         \<and> mem_used hdr =
             status_line (status r) @ fields_bytes (resp_fields r)
             @ (if keepalive h1p' = keepalive_default (version_minor h1p) then []
                else if keepalive h1p' then ''Connection: keep-alive'' @ CRLF
                else ''Connection: close'' @ CRLF)
             @ (if chunked h1p' then chunked_line else CRLF)
         \<and> keepalive h1p' =
             (keepalive h1p \<and>
              \<not> (version_minor h1p = CHR ''0'' \<and>
                 (case resp_content_length r of None \<Rightarrow> True | Some f \<Rightarrow> field_skip f)))
         \<and> ((keepalive h1p \<longrightarrow> keepalive_default (version_minor h1p)) \<longrightarrow>
              keepalive h1p' = keepalive h1p)
         \<and> chunked h1p' =
             (version_minor h1p \<noteq> CHR ''0'' \<and>
              (case resp_content_length r of None \<Rightarrow> True | Some f \<Rightarrow> field_skip f))"
  using assms
  by (auto simp: nxt_h1p_request_header_send_def Let_def keepalive_default_def connection_def
      fields_bytes_length chunked_line_def CRLF_def
      split: if_splits option.splits)

theorem C8_connection_line_witness:
  "(\<exists>h1p' r' c' hdr.
     nxt_h1p_request_header_send True
       \<lparr>version_minor = CHR ''1'', keepalive = False, chunked = False,
        transfer_encoding = NXT_HTTP_TE_NONE\<rparr>
       \<lparr>content_length_n = 0, max_body_size = 0, body = None, status = 200,
        header_sent = False, resp_fields = [],
        resp_content_length = Some \<lparr>field_name = ''Content-Length'', field_value = ''0'',
                                    field_skip = False\<rparr>\<rparr>
       \<lparr>conn_read = None, conn_write = None, read_state = Idle_state,
        write_state = Idle_state\<rparr> = ((h1p', r', c'), Conn_write)
     \<and> conn_write c' = Some hdr
     \<and> mem_used hdr = ''HTTP/1.1 200 OK'' @ CRLF @ ''Connection: close'' @ CRLF @ CRLF)
   \<and> (\<exists>h1p' r' c' hdr.
     nxt_h1p_request_header_send True
       \<lparr>version_minor = CHR ''0'', keepalive = True, chunked = False,
        transfer_encoding = NXT_HTTP_TE_NONE\<rparr>
       \<lparr>content_length_n = 0, max_body_size = 0, body = None, status = 200,
        header_sent = False, resp_fields = [],
        resp_content_length = Some \<lparr>field_name = ''Content-Length'', field_value = ''0'',
                                    field_skip = False\<rparr>\<rparr>
       \<lparr>conn_read = None, conn_write = None, read_state = Idle_state,
        write_state = Idle_state\<rparr> = ((h1p', r', c'), Conn_write)
     \<and> conn_write c' = Some hdr
     \<and> mem_used hdr = ''HTTP/1.1 200 OK'' @ CRLF @ ''Connection: keep-alive'' @ CRLF @ CRLF)"
proof -
  let ?h1 = "\<lparr>version_minor = CHR ''1'', keepalive = False, chunked = False,
        transfer_encoding = NXT_HTTP_TE_NONE\<rparr>"
  let ?h0 = "\<lparr>version_minor = CHR ''0'', keepalive = True, chunked = False,
        transfer_encoding = NXT_HTTP_TE_NONE\<rparr>"
  let ?r = "\<lparr>content_length_n = 0, max_body_size = 0, body = None, status = 200,
        header_sent = False, resp_fields = [],
        resp_content_length = Some \<lparr>field_name = ''Content-Length'', field_value = ''0'',
                                    field_skip = False\<rparr>\<rparr>"
  let ?c = "\<lparr>conn_read = None, conn_write = None, read_state = Idle_state,
        write_state = Idle_state\<rparr>"
  have st: "status_line 200 = ''HTTP/1.1 200 OK'' @ CRLF"
    by (simp add: status_line_def NXT_HTTP_OK_def NXT_HTTP_LAST_SUCCESS_def
        nxt_http_success_def)
  from C8_connection_line [of True ?h1 ?r ?c]
  have a: "\<exists>h1p' r' c' hdr.
     nxt_h1p_request_header_send True ?h1 ?r ?c = ((h1p', r', c'), Conn_write)
     \<and> conn_write c' = Some hdr
     \<and> mem_used hdr = ''HTTP/1.1 200 OK'' @ CRLF @ ''Connection: close'' @ CRLF @ CRLF"
    by (auto simp: st keepalive_default_def)
  from C8_connection_line [of True ?h0 ?r ?c]
  have b: "\<exists>h1p' r' c' hdr.
     nxt_h1p_request_header_send True ?h0 ?r ?c = ((h1p', r', c'), Conn_write)
     \<and> conn_write c' = Some hdr
     \<and> mem_used hdr = ''HTTP/1.1 200 OK'' @ CRLF @ ''Connection: keep-alive'' @ CRLF @ CRLF"
    by (auto simp: st keepalive_default_def)
  from a b show ?thesis by blast
qed


section \<open>Properties of the printer\<close>

text \<open>
  The values on which \<open>llabs\<close> is defined: no integer in them is the least 64-bit one.
\<close>

fun llabs_defined :: "nxt_conf_json_value \<Rightarrow> bool" where
  "llabs_defined (JSON_INTEGER num) = (num \<noteq> - (2 ^ 63))"
| "llabs_defined (JSON_ARRAY vs) = list_all llabs_defined vs"
| "llabs_defined (JSON_OBJECT ms) = list_all (\<lambda>m. llabs_defined (snd m)) ms"
| "llabs_defined _ = True"

text \<open>The level of a context, and what the sizing pass adds for each element and member.\<close>

definition lev :: "pretty \<Rightarrow> nat option" where
  "lev p = map_option level p"

definition array_extra :: "pretty \<Rightarrow> nat" where
  "array_extra p = (case p of None \<Rightarrow> 0 | Some pr \<Rightarrow> level pr + 2)"

definition object_extra :: "pretty \<Rightarrow> nat" where
  "object_extra p = (case p of None \<Rightarrow> 0 | Some pr \<Rightarrow> level pr + 5)"

lemma level_dec_inc [simp]: "level_dec (level_inc p) = p"
  by (cases p) (simp_all add: level_dec_def level_inc_def)

lemma size_snd:
  "snd (nxt_conf_json_print_value_size v p) = p"
  "snd (print_array_size_loop vs p len) = p"
  "snd (print_object_size_loop ms p len) = p"
  by (induction v p and vs p len and ms p len
      rule: nxt_conf_json_print_value_size_print_array_size_loop_print_object_size_loop.induct)
    (auto simp: Let_def split: prod.splits option.splits)

lemma array_extra_case:
  "(case p of None \<Rightarrow> l | Some pr \<Rightarrow> l + (level pr + 2)) = l + array_extra p"
  by (cases p) (simp_all add: array_extra_def)

lemma object_extra_case:
  "(case p of None \<Rightarrow> l | Some pr \<Rightarrow> l + (level pr + 1 + 2 + 2)) = l + object_extra p"
  by (cases p) (simp_all add: object_extra_def)

lemma array_size_loop_eq:
  "fst (print_array_size_loop vs p len) =
     len + (\<Sum>v\<leftarrow>vs. fst (nxt_conf_json_print_value_size v p) + array_extra p)"
proof (induction vs arbitrary: len)
  case Nil
  then show ?case by simp
next
  case (Cons v vs)
  obtain n where n: "nxt_conf_json_print_value_size v p = (n, p)"
    using size_snd(1) [of v p] by (cases "nxt_conf_json_print_value_size v p") simp
  show ?case
    by (simp add: n Cons.IH array_extra_case)
qed

lemma object_size_loop_eq:
  "fst (print_object_size_loop ms p len) =
     len + (\<Sum>m\<leftarrow>ms. nxt_conf_json_print_string_size (fst m) + 2
                   + fst (nxt_conf_json_print_value_size (snd m) p) + object_extra p)"
proof (induction ms arbitrary: len)
  case Nil
  then show ?case by simp
next
  case (Cons m ms)
  obtain n where n: "nxt_conf_json_print_value_size (snd m) p = (n, p)"
    using size_snd(1) [of "snd m" p] by (cases "nxt_conf_json_print_value_size (snd m) p") simp
  show ?case
    by (simp add: n Cons.IH object_extra_case)
qed

lemma lev_pretty_open [simp]: "lev (snd (pretty_open i p)) = map_option Suc (lev p)"
  by (cases p) (simp_all add: pretty_open_def lev_def Let_def)

lemma lev_pretty_close [simp]: "lev (snd (pretty_close p)) = map_option (\<lambda>n. n - 1) (lev p)"
  by (cases p) (simp_all add: pretty_close_def lev_def Let_def)

lemma array_emit_loop_lev:
  assumes "\<And>v p. v \<in> set vs \<Longrightarrow> lev (snd (nxt_conf_json_print_value_emit v p)) = lev p"
  shows "lev (snd (print_array_emit_loop vs p)) = lev p"
  using assms
proof (induction vs arbitrary: p)
  case Nil
  then show ?case by simp
next
  case (Cons v vs)
  then show ?case
    by (cases p) (simp_all add: split_beta Let_def lev_def)
qed

lemma object_emit_loop_lev:
  assumes "\<And>m p. m \<in> set ms \<Longrightarrow> lev (snd (nxt_conf_json_print_value_emit (snd m) p)) = lev p"
  shows "lev (snd (print_object_emit_loop ms p)) = lev p"
  using assms
proof (induction ms arbitrary: p)
  case Nil
  then show ?case by simp
next
  case (Cons m ms)
  have a: "lev (snd (nxt_conf_json_print_value_emit (snd m) p)) = lev p"
    using Cons.prems by simp
  show ?case
  proof (cases "snd (nxt_conf_json_print_value_emit (snd m) p)")
    case None
    then show ?thesis using a Cons by (simp add: split_beta Let_def)
  next
    case (Some pr)
    then show ?thesis using a Cons by (simp add: split_beta Let_def lev_def)
  qed
qed

lemma emit_lev: "lev (snd (nxt_conf_json_print_value_emit v p)) = lev p"
proof (induction v arbitrary: p)
  case (JSON_ARRAY vs)
  show ?case
  proof (cases vs)
    case Nil
    then show ?thesis by simp
  next
    case (Cons v vs')
    have "lev (snd (print_array_emit_loop vs' q)) = lev q" for q
      using JSON_ARRAY Cons by (intro array_emit_loop_lev) simp
    then show ?thesis
      using JSON_ARRAY [of v] Cons
      by (simp add: split_beta Let_def option.map_comp comp_def option.map_ident)
  qed
next
  case (JSON_OBJECT ms)
  show ?case
  proof (cases ms)
    case Nil
    then show ?thesis by simp
  next
    case (Cons m ms')
    have "lev (snd (print_object_emit_loop ms q)) = lev q" for q
      using JSON_OBJECT by (intro object_emit_loop_lev) (auto simp: snds.simps)
    then show ?thesis
      using Cons
      by (simp add: split_beta Let_def option.map_comp comp_def option.map_ident
          del: print_object_emit_loop.simps)
  qed
qed simp_all

lemma escape_length:
  "length (nxt_conf_json_escape_emit s) = length s + nxt_conf_json_escape_size s"
  by (induction s) (auto simp: byte_def LF_def CR_def)

lemma print_string_length:
  "length (nxt_conf_json_print_string_emit s) = nxt_conf_json_print_string_size s"
  by (simp add: nxt_conf_json_print_string_emit_def nxt_conf_json_print_string_size_def
      escape_length Let_def)

lemma dec_digits_length: "0 < k \<Longrightarrow> n < 10 ^ k \<Longrightarrow> length (dec_digits n) \<le> k"
proof (induction k arbitrary: n)
  case 0
  then show ?case by simp
next
  case (Suc k)
  show ?case
  proof (cases "n < 10")
    case True
    then show ?thesis by (simp add: dec_digits.simps [of n])
  next
    case False
    with Suc.prems have k: "0 < k" by (cases k) simp_all
    have "n div 10 < 10 ^ k" using Suc.prems by (simp add: less_mult_imp_div_less)
    from Suc.IH [OF k this] False show ?thesis by (simp add: dec_digits.simps [of n])
  qed
qed

lemma sint_llabs:
  assumes "num \<noteq> - (2 ^ 63)"
  shows "sint (llabs num) = \<bar>sint (num :: 64 word)\<bar>"
proof -
  have "sint num \<noteq> - (2 ^ 63)"
  proof
    assume "sint num = - (2 ^ 63)"
    then have "word_of_int (sint num) = (word_of_int (- (2 ^ 63)) :: 64 word)" by simp
    then show False using assms by simp
  qed
  moreover have "- (2 ^ 63) \<le> sint num" "sint num < 2 ^ 63"
    using sint_ge [of num] sint_lt [of num] by simp_all
  ultimately have "signed_take_bit 63 (- sint num) = - sint num"
    by (intro signed_take_bit_int_eq_self) simp_all
  then show ?thesis
    by (simp add: llabs_def word_sless_alt sint_word_minus)
qed

lemma print_integer_length:
  assumes "num \<noteq> - (2 ^ 63)"
  shows "length (nxt_conf_json_print_integer_emit num) \<le> nxt_conf_json_print_integer_size num"
proof -
  let ?a = "nat \<bar>sint num\<bar>"
  have len: "length (nxt_conf_json_print_integer_emit num) \<le> Suc (length (dec_digits ?a))"
    by (auto simp: nxt_conf_json_print_integer_emit_def sprintf_int64_def)
  have len20: "length (nxt_conf_json_print_integer_emit num) \<le> 20"
    by (simp add: nxt_conf_json_print_integer_emit_def sprintf_int64_def NXT_INT64_T_LEN_def)
  have s1: "llabs num \<le>s 9999 \<longleftrightarrow> ?a < 10 ^ 4"
    by (simp add: word_sle_eq sint_llabs [OF assms]) linarith
  have s2: "llabs num \<le>s 99999999999 \<longleftrightarrow> ?a < 10 ^ 11"
    by (simp add: word_sle_eq sint_llabs [OF assms]) linarith
  show ?thesis
    using len len20 dec_digits_length [of 4 ?a] dec_digits_length [of 11 ?a]
    by (auto simp: nxt_conf_json_print_integer_size_def Let_def NXT_INT64_T_LEN_def s1 s2)
qed

lemma array_extra_lev: "array_extra p = (case lev p of None \<Rightarrow> 0 | Some l \<Rightarrow> l + 2)"
  by (cases p) (simp_all add: array_extra_def lev_def)

lemma object_extra_lev: "object_extra p = (case lev p of None \<Rightarrow> 0 | Some l \<Rightarrow> l + 5)"
  by (cases p) (simp_all add: object_extra_def lev_def)

lemma lev_level_inc [simp]: "lev (level_inc p) = map_option Suc (lev p)"
  by (cases p) (simp_all add: level_inc_def lev_def)

lemma length_pretty_open:
  "length (fst (pretty_open i p)) =
     (case lev p of None \<Rightarrow> 0 | Some l \<Rightarrow> if i then l + 3 else 2)"
  by (cases p)
    (simp_all add: pretty_open_def lev_def Let_def nxt_conf_json_newline_def
      nxt_conf_json_indentation_def)

lemma length_pretty_close:
  "length (fst (pretty_close p)) = (case lev p of None \<Rightarrow> 0 | Some l \<Rightarrow> l - 1 + 2)"
  by (cases p)
    (simp_all add: pretty_close_def lev_def Let_def nxt_conf_json_newline_def
      nxt_conf_json_indentation_def)

lemma array_emit_loop_length:
  assumes "\<And>v p p'. v \<in> set vs \<Longrightarrow> lev p' = lev p \<Longrightarrow>
             length (fst (nxt_conf_json_print_value_emit v p))
               \<le> fst (nxt_conf_json_print_value_size v p')"
    and "lev p' = lev p"
  shows "length (fst (print_array_emit_loop vs p))
           \<le> (\<Sum>v\<leftarrow>vs. fst (nxt_conf_json_print_value_size v p') + array_extra p') + length vs"
  using assms
proof (induction vs arbitrary: p)
  case Nil
  then show ?case by simp
next
  case (Cons v vs)
  define p1 where "p1 = map_option (\<lambda>pr. pr\<lparr>more_space := False\<rparr>) p"
  define sep where "sep = (case p of None \<Rightarrow> [] | Some pr \<Rightarrow>
                             nxt_conf_json_newline @ nxt_conf_json_indentation pr)"
  have sp: "(case p of None \<Rightarrow> ([], None)
            | Some pr \<Rightarrow> (nxt_conf_json_newline @ nxt_conf_json_indentation pr,
                         Some (pr\<lparr>more_space := False\<rparr>))) = (sep, p1)"
    by (cases p) (simp_all add: sep_def p1_def)
  have l1: "lev p1 = lev p" by (cases p) (simp_all add: p1_def lev_def)
  have lsep: "length sep = array_extra p'"
    using Cons.prems(2)
    by (cases p) (auto simp: sep_def array_extra_lev lev_def nxt_conf_json_newline_def
        nxt_conf_json_indentation_def)
  obtain b p2 where e: "nxt_conf_json_print_value_emit v p1 = (b, p2)" by force
  have l2: "lev p2 = lev p1" using emit_lev [of v p1] e by simp
  have lb: "length b \<le> fst (nxt_conf_json_print_value_size v p')"
    using Cons.prems(1) [of v p' p1] l1 Cons.prems(2) e by simp
  have "length (fst (print_array_emit_loop vs p2))
           \<le> (\<Sum>v\<leftarrow>vs. fst (nxt_conf_json_print_value_size v p') + array_extra p') + length vs"
    using Cons.prems l1 l2 by (intro Cons.IH) simp_all
  then show ?case
    using lb lsep by (simp add: sp e split_beta)
qed

lemma object_emit_loop_length:
  assumes "\<And>m p p'. m \<in> set ms \<Longrightarrow> lev p' = lev p \<Longrightarrow>
             length (fst (nxt_conf_json_print_value_emit (snd m) p))
               \<le> fst (nxt_conf_json_print_value_size (snd m) p')"
    and "lev p' = lev p" and "ms \<noteq> []"
  shows "length (fst (print_object_emit_loop ms p)) + (case lev p of None \<Rightarrow> 1 | Some l \<Rightarrow> 5)
           \<le> (\<Sum>m\<leftarrow>ms. nxt_conf_json_print_string_size (fst m) + 2
                   + fst (nxt_conf_json_print_value_size (snd m) p') + object_extra p')"
  using assms
proof (induction ms arbitrary: p)
  case Nil
  then show ?case by simp
next
  case (Cons m ms)
  obtain b p1 where e: "nxt_conf_json_print_value_emit (snd m) p = (b, p1)" by force
  have l1: "lev p1 = lev p" using emit_lev [of "snd m" p] e by simp
  have lb: "length b \<le> fst (nxt_conf_json_print_value_size (snd m) p')"
    using Cons.prems(1) [of m p' p] Cons.prems(2) e by simp
  have lind: "length (case p of None \<Rightarrow> [] | Some pr \<Rightarrow> nxt_conf_json_indentation pr)
              + length (CHR '':'' # (case p of None \<Rightarrow> [] | Some pr \<Rightarrow> '' ''))
              + (case lev p of None \<Rightarrow> 0 | Some l \<Rightarrow> 4) = 1 + object_extra p"
    by (cases p) (simp_all add: object_extra_def lev_def nxt_conf_json_indentation_def)
  have oe: "object_extra p' = object_extra p"
    using Cons.prems(2) by (simp add: object_extra_lev)
  show ?case
  proof (cases "ms = []")
    case True
    then show ?thesis
      using lb lind oe
      by (cases "lev p") (simp_all add: e print_string_length)
  next
    case False
    define sp where "sp = (case p1 of
                    None \<Rightarrow> ([], None)
                  | Some pr \<Rightarrow>
                      if more_space pr
                      then (nxt_conf_json_newline @ nxt_conf_json_newline,
                            Some (pr\<lparr>more_space := False\<rparr>))
                      else (nxt_conf_json_newline, Some pr))"
    have l2: "lev (snd sp) = lev p"
      using l1 by (cases p1) (auto simp: sp_def lev_def)
    have lsp: "length (fst sp) \<le> (case lev p of None \<Rightarrow> 0 | Some l \<Rightarrow> 4)"
      using l1 by (cases p1; cases p) (auto simp: sp_def lev_def nxt_conf_json_newline_def)
    have "length (fst (print_object_emit_loop ms (snd sp)))
             + (case lev (snd sp) of None \<Rightarrow> 1 | Some l \<Rightarrow> 5)
           \<le> (\<Sum>m\<leftarrow>ms. nxt_conf_json_print_string_size (fst m) + 2
                   + fst (nxt_conf_json_print_value_size (snd m) p') + object_extra p')"
      using Cons.prems l2 False by (intro Cons.IH) simp_all
    then show ?thesis
      using lb lind oe lsp False l2
      by (cases "lev p") (simp_all add: e print_string_length split_beta sp_def [symmetric])
  qed
qed

lemma size_bounds_emit_lev:
  assumes "llabs_defined v" and "lev p' = lev p"
  shows "length (fst (nxt_conf_json_print_value_emit v p))
           \<le> fst (nxt_conf_json_print_value_size v p')"
  using assms
proof (induction v arbitrary: p p')
  case (JSON_INTEGER num)
  then show ?case using print_integer_length [of num] by simp
next
  case (JSON_STR s)
  then show ?case by (simp add: print_string_length)
next
  case (JSON_ARRAY vs)
  show ?case
  proof (cases vs)
    case Nil
    then show ?thesis by (cases p') (simp_all add: split_beta)
  next
    case (Cons v vs')
    define q where "q = snd (pretty_open True p)"
    define q' where "q' = level_inc p'"
    have lq: "lev q' = lev q" using JSON_ARRAY.prems(2) by (simp add: q_def q'_def)
    obtain b0 p2 where e: "nxt_conf_json_print_value_emit v q = (b0, p2)" by force
    have l2: "lev p2 = lev q" using emit_lev [of v q] e by simp
    have ih: "length (fst (nxt_conf_json_print_value_emit w r))
               \<le> fst (nxt_conf_json_print_value_size w r')"
      if "w \<in> set vs" "lev r' = lev r" for w r r'
      using JSON_ARRAY.IH [OF that(1) _ that(2)] JSON_ARRAY.prems(1) that(1)
      by (simp add: list_all_iff)
    have lb: "length b0 \<le> fst (nxt_conf_json_print_value_size v q')"
      using ih [of v q' q] lq e Cons by simp
    have lbs: "length (fst (print_array_emit_loop vs' p2))
           \<le> (\<Sum>v\<leftarrow>vs'. fst (nxt_conf_json_print_value_size v q') + array_extra q')
             + length vs'"
      using ih Cons lq l2 by (intro array_emit_loop_length) simp_all
    have l3: "lev (snd (print_array_emit_loop vs' p2)) = lev p2"
      using emit_lev by (intro array_emit_loop_lev) simp
    have "length (fst (nxt_conf_json_print_value_emit (JSON_ARRAY vs) p))
            = 2 + length (fst (pretty_open True p)) + length b0
              + length (fst (print_array_emit_loop vs' p2))
              + length (fst (pretty_close (snd (print_array_emit_loop vs' p2))))"
      using e by (simp add: Cons split_beta q_def)
    moreover have "fst (nxt_conf_json_print_value_size (JSON_ARRAY vs) p')
            = 2 + (fst (nxt_conf_json_print_value_size v q') + array_extra q')
              + (\<Sum>v\<leftarrow>vs'. fst (nxt_conf_json_print_value_size v q') + array_extra q')
              + (case lev p' of None \<Rightarrow> 0 | Some l \<Rightarrow> l + 2) + Suc (length vs')"
      by (cases p')
        (simp_all add: Cons split_beta array_size_loop_eq q'_def size_snd lev_def Let_def
          del: print_array_size_loop.simps)
    ultimately show ?thesis
      using lb lbs JSON_ARRAY.prems(2) lq
      by (cases "lev p")
        (simp_all add: length_pretty_open length_pretty_close l3 l2 array_extra_lev,
          simp_all add: q_def)
  qed
next
  case (JSON_OBJECT ms)
  show ?case
  proof (cases ms)
    case Nil
    then show ?thesis by (cases p') (simp_all add: split_beta)
  next
    case (Cons m ms')
    define q where "q = snd (pretty_open False p)"
    define q' where "q' = level_inc p'"
    have lq: "lev q' = lev q" using JSON_OBJECT.prems(2) by (simp add: q_def q'_def)
    have ih: "length (fst (nxt_conf_json_print_value_emit (snd w) r))
               \<le> fst (nxt_conf_json_print_value_size (snd w) r')"
      if "w \<in> set ms" "lev r' = lev r" for w r r'
      using JSON_OBJECT.IH [OF that(1) _ _ that(2), of "snd w"] JSON_OBJECT.prems(1) that(1)
      by (cases w) (auto simp: list_all_iff)
    have lbs: "length (fst (print_object_emit_loop ms q))
                 + (case lev q of None \<Rightarrow> 1 | Some l \<Rightarrow> 5)
           \<le> (\<Sum>m\<leftarrow>ms. nxt_conf_json_print_string_size (fst m) + 2
                   + fst (nxt_conf_json_print_value_size (snd m) q') + object_extra q')"
      using ih Cons lq by (intro object_emit_loop_length) simp_all
    have l3: "lev (snd (print_object_emit_loop ms q)) = lev q"
      using emit_lev by (intro object_emit_loop_lev) simp
    have "length (fst (nxt_conf_json_print_value_emit (JSON_OBJECT ms) p))
            = 2 + length (fst (pretty_open False p)) + length (fst (print_object_emit_loop ms q))
              + length (fst (pretty_close (snd (print_object_emit_loop ms q))))"
      by (simp add: Cons split_beta q_def del: print_object_emit_loop.simps)
    moreover have "fst (nxt_conf_json_print_value_size (JSON_OBJECT ms) p')
            = 2 + (\<Sum>m\<leftarrow>ms. nxt_conf_json_print_string_size (fst m) + 2
                   + fst (nxt_conf_json_print_value_size (snd m) q') + object_extra q')
              + (case lev p' of None \<Rightarrow> 0 | Some l \<Rightarrow> l + 2)"
      by (cases p')
        (simp_all add: split_beta object_size_loop_eq q'_def size_snd lev_def Let_def
          del: print_object_size_loop.simps)
    ultimately show ?thesis
      using lbs JSON_OBJECT.prems(2)
      by (cases "lev p")
        (simp_all add: length_pretty_open length_pretty_close l3, simp_all add: q_def)
  qed
qed simp_all


text \<open>
  C1, as the code has it.  The sizing pass reserves room: for every value on which
  \<open>llabs\<close> is defined, in compact style (no context) and in pretty style (any
  context), the bytes the emit pass writes are at most the count the sizing pass
  returns for the same value and context.
\<close>

theorem C1_size_bounds_emit:
  assumes "llabs_defined v"
  shows "length (fst (nxt_conf_json_print_value_emit v p))
           \<le> fst (nxt_conf_json_print_value_size v p)"
  using assms by (rule size_bounds_emit_lev) simp

theorem C1_size_bounds_emit_witness:
  "llabs_defined (JSON_ARRAY [JSON_INTEGER 7, JSON_NULL])
   \<and> length (fst (nxt_conf_json_print_value_emit (JSON_ARRAY [JSON_INTEGER 7, JSON_NULL])
               (Some \<lparr>level = 0, more_space = False\<rparr>)))
       \<le> fst (nxt_conf_json_print_value_size (JSON_ARRAY [JSON_INTEGER 7, JSON_NULL])
               (Some \<lparr>level = 0, more_space = False\<rparr>))"
proof -
  have h: "llabs_defined (JSON_ARRAY [JSON_INTEGER 7, JSON_NULL])" by simp
  from C1_size_bounds_emit [OF h] h show ?thesis by blast
qed

text \<open>
  C1 as stated fails: for the array \<open>[null]\<close> in compact style the sizing pass returns
  7 (it reserves one comma for each element) and the emit pass writes the 6 bytes
  \<open>[null]\<close>.
\<close>

theorem C1_size_exact_counterexample:
  "fst (nxt_conf_json_print_value_size (JSON_ARRAY [JSON_NULL]) None) = 7
   \<and> fst (nxt_conf_json_print_value_emit (JSON_ARRAY [JSON_NULL]) None) = ''[null]''
   \<and> fst (nxt_conf_json_print_value_size (JSON_ARRAY [JSON_NULL]) None)
       \<noteq> length (fst (nxt_conf_json_print_value_emit (JSON_ARRAY [JSON_NULL]) None))"
  by (simp add: level_inc_def level_dec_def pretty_open_def pretty_close_def)


section \<open>Properties of the parser\<close>

text \<open>The key of a member: the bytes of its name.\<close>

definition member_key :: "nxt_conf_json_obj_member \<Rightarrow> string" where
  "member_key m = str_bytes (fst m)"

text \<open>
  What the theorems below take for granted of the hash's iteration: it visits every
  member that was inserted, once.
\<close>

definition lvlhsh_each_ok :: "lvlhsh_each \<Rightarrow> bool" where
  "lvlhsh_each_ok each = (\<forall>ms. mset (each ms) = mset ms)"

lemma lvlhsh_each_set: "lvlhsh_each_ok each \<Longrightarrow> set (each ms) = set ms"
  unfolding lvlhsh_each_ok_def by (metis set_mset_mset)

lemma lvlhsh_each_ok_id: "lvlhsh_each_ok (\<lambda>ms. ms)"
  by (simp add: lvlhsh_each_ok_def)

text \<open>
  An invariant of the parser's results: a property \<open>P\<close> that holds of the scalars the
  parser builds, and of an array and an object whenever it holds of their parts, holds
  of every value the parser returns.  The members of an object have names that
  \<open>nxt_conf_json_parse_string\<close> returned, and keys that differ.
\<close>

lemma parse_invariant:
  fixes P :: "nxt_conf_json_value \<Rightarrow> bool" and Q :: "nxt_conf_json_str \<Rightarrow> bool"
  assumes a_null: "P JSON_NULL" and a_bool: "\<And>b. P (JSON_BOOLEAN b)"
    and a_num: "\<And>s v r. nxt_conf_json_parse_number s = Ret (v, r) \<Longrightarrow> P v"
    and a_str: "\<And>s x r. nxt_conf_json_parse_string s = Some (x, r) \<Longrightarrow> Q x"
    and a_strv: "\<And>x. Q x \<Longrightarrow> P (JSON_STR x)"
    and a_arr: "\<And>vs. list_all P vs \<Longrightarrow> P (JSON_ARRAY vs)"
    and a_obj: "\<And>ms. list_all (\<lambda>m. Q (fst m) \<and> P (snd m)) ms \<Longrightarrow>
                distinct (map member_key ms) \<Longrightarrow> P (JSON_OBJECT (each ms))"
  shows "nxt_conf_json_parse_value each pos = Ret (v, r) \<Longrightarrow> P v"
    and "nxt_conf_json_parse_object each pos2 = Ret (v2, r2) \<Longrightarrow> P v2"
    and "parse_object_loop each seen pos3 = Ret (ms, r3) \<Longrightarrow>
           list_all (\<lambda>m. Q (fst m) \<and> P (snd m)) ms \<and> distinct (map member_key ms)
           \<and> (\<forall>m \<in> set ms. member_key m \<notin> set seen)"
    and "nxt_conf_json_parse_array each pos4 = Ret (v4, r4) \<Longrightarrow> P v4"
    and "parse_array_loop each pos5 = Ret (vs, r5) \<Longrightarrow> list_all P vs"
  using a_obj
proof (induct each pos and each pos2 and each seen pos3 and each pos4 and each pos5
    arbitrary: v r and v2 r2 and ms r3 and v4 r4 and vs r5
    rule: nxt_conf_json_parse_value_nxt_conf_json_parse_object_parse_object_loop_nxt_conf_json_parse_array_parse_array_loop.induct)
  case (1 each)
  then show ?case by (simp add: nxt_conf_json_parse_value.simps)
next
  case (2 each ch cs)
  note eq = "2.prems"(1) [unfolded nxt_conf_json_parse_value.simps(2) [of each ch cs]]
  note ob = "2.prems"(2)
  show ?case
  proof (cases "ch = CHR ''{''")
    case True
    then show ?thesis using eq "2.hyps"(1) [OF _ _ ob] by simp
  next
    case nobrace: False
    show ?thesis
    proof (cases "ch = CHR ''[''")
      case True
      then show ?thesis using eq nobrace "2.hyps"(2) [OF _ _ _ ob] by simp
    next
      case False
      note nobracket = this
      consider (str) "ch = CHR 0x22" | (t) "ch = CHR ''t''" | (f) "ch = CHR ''f''"
        | (n) "ch = CHR ''n''"
        | (other) "ch \<noteq> CHR 0x22" "ch \<noteq> CHR ''t''" "ch \<noteq> CHR ''f''" "ch \<noteq> CHR ''n''"
        by blast
      then show ?thesis
      proof cases
        case str
        then obtain s where "nxt_conf_json_parse_string (ch # cs) = Some (s, r)" "v = JSON_STR s"
          using eq by (auto split: option.splits)
        then show ?thesis using a_str a_strv by blast
      next
        case t
        then have "keyword (ch # cs) ''true'' (JSON_BOOLEAN True) = Ret (v, r)"
          using eq by simp
        then have "v = JSON_BOOLEAN True" by (simp add: keyword_def split: if_splits)
        then show ?thesis using a_bool by simp
      next
        case f
        then have "keyword (ch # cs) ''false'' (JSON_BOOLEAN False) = Ret (v, r)"
          using eq by simp
        then have "v = JSON_BOOLEAN False" by (simp add: keyword_def split: if_splits)
        then show ?thesis using a_bool by simp
      next
        case n
        then have "keyword (ch # cs) ''null'' JSON_NULL = Ret (v, r)"
          using eq by simp
        then have "v = JSON_NULL" by (simp add: keyword_def split: if_splits)
        then show ?thesis using a_null by simp
      next
        case other
        then have "nxt_conf_json_parse_number (ch # cs) = Ret (v, r)"
          using eq nobrace nobracket by (simp split: if_splits)
        then show ?thesis by (rule a_num)
      qed
    qed
  qed
next
  case (3 each)
  then show ?case by (simp add: nxt_conf_json_parse_object.simps)
next
  case (4 each ch cs)
  note eq = "4.prems"(1) [unfolded nxt_conf_json_parse_object.simps(2) [of each ch cs]]
  note ob = "4.prems"(2)
  show ?case
  proof (cases "nxt_conf_json_skip_space cs")
    case Nil
    then show ?thesis using eq by simp
  next
    case (Cons c pos)
    show ?thesis
    proof (cases "c = CHR ''}''")
      case True
      then show ?thesis using eq Cons ob [of "[]"] by auto
    next
      case False
      then obtain ms where l: "parse_object_loop each [] (c # pos) = Ret (ms, r2)"
        and v2: "v2 = JSON_OBJECT (each ms)"
        using eq Cons by (auto split: ret.splits)
      from "4.hyps" [OF Cons False l ob] v2 ob [of ms] show ?thesis by simp
    qed
  qed
next
  case (5 each seen)
  then show ?case by (simp add: parse_object_loop.simps)
next
  case (6 each seen ch cs)
  note eq = "6.prems"(1) [unfolded parse_object_loop.simps(2) [of each seen ch cs]]
  note ob = "6.prems"(2)
  have q: "\<not> ch \<noteq> CHR 0x22" using eq by (auto split: if_splits)
  obtain name pos1 where ps: "nxt_conf_json_parse_string (ch # cs) = Some (name, pos1)"
    using eq q by (cases "nxt_conf_json_parse_string (ch # cs)") auto
  have ns: "str_bytes name \<notin> set seen" using eq q ps by (auto split: if_splits)
  have qn: "Q name" using ps by (rule a_str)
  show ?case
  proof (cases "nxt_conf_json_skip_space pos1")
    case Nil
    then show ?thesis using eq q ps ns by simp
  next
    case s1: (Cons c2 pos2)
    have colon: "\<not> c2 \<noteq> CHR '':''" using eq q ps ns s1 by (auto split: if_splits)
    show ?thesis
    proof (cases "nxt_conf_json_skip_space pos2")
      case Nil
      then show ?thesis using eq q ps ns s1 colon by simp
    next
      case s2: (Cons c3 pos3)
      obtain v pos4 where pv: "nxt_conf_json_parse_value each (c3 # pos3) = Ret (v, pos4)"
        using eq q ps ns s1 colon s2
        by (cases "nxt_conf_json_parse_value each (c3 # pos3)") auto
      have pv': "P v"
        using "6.hyps"(1) [OF q ps refl ns s1 colon s2 pv ob] .
      show ?thesis
      proof (cases "nxt_conf_json_skip_space pos4")
        case Nil
        then show ?thesis using eq q ps ns s1 colon s2 pv by simp
      next
        case s4: (Cons c5 pos5)
        show ?thesis
        proof (cases "c5 = CHR ''}''")
          case True
          then have "ms = [(name, v)]" using eq q ps ns s1 colon s2 pv s4 by simp
          then show ?thesis using qn pv' ns by (simp add: member_key_def)
        next
          case nb: False
          then have comma: "\<not> c5 \<noteq> CHR '',''"
            using eq q ps ns s1 colon s2 pv s4 by (auto split: if_splits)
          show ?thesis
          proof (cases "nxt_conf_json_skip_space pos5")
            case Nil
            then show ?thesis using eq q ps ns s1 colon s2 pv s4 nb comma by simp
          next
            case s5: (Cons c6 pos6)
            obtain ms' where
              l: "parse_object_loop each (str_bytes name # seen) (c6 # pos6) = Ret (ms', r3)"
              and ms: "ms = (name, v) # ms'"
              using eq q ps ns s1 colon s2 pv s4 nb comma s5 by (auto split: ret.splits)
            from "6.hyps"(2) [OF q ps refl ns s1 colon s2 pv refl s4 nb comma s5 l ob]
            show ?thesis using ms qn pv' ns by (auto simp: member_key_def)
          qed
        qed
      qed
    qed
  qed
next
  case (7 each)
  then show ?case by (simp add: nxt_conf_json_parse_array.simps)
next
  case (8 each ch cs)
  note eq = "8.prems"(1) [unfolded nxt_conf_json_parse_array.simps(2) [of each ch cs]]
  note ob = "8.prems"(2)
  show ?case
  proof (cases "nxt_conf_json_skip_space cs")
    case Nil
    then show ?thesis using eq by simp
  next
    case (Cons c pos)
    show ?thesis
    proof (cases "c = CHR '']''")
      case True
      then show ?thesis using eq Cons a_arr [of "[]"] by auto
    next
      case False
      then obtain es where l: "parse_array_loop each (c # pos) = Ret (es, r4)"
        and v4: "v4 = JSON_ARRAY es"
        using eq Cons by (auto split: ret.splits)
      from "8.hyps" [OF Cons False l ob] v4 a_arr [of es] show ?thesis by simp
    qed
  qed
next
  case (9 each pos)
  note eq = "9.prems"(1) [unfolded parse_array_loop.simps [of each pos]]
  note ob = "9.prems"(2)
  obtain v pos1 where pv: "nxt_conf_json_parse_value each pos = Ret (v, pos1)"
    using eq by (cases "nxt_conf_json_parse_value each pos") auto
  have pv': "P v" using "9.hyps"(1) [OF pv ob] .
  show ?case
  proof (cases "nxt_conf_json_skip_space pos1")
    case Nil
    then show ?thesis using eq pv by simp
  next
    case s1: (Cons c pos2)
    show ?thesis
    proof (cases "c = CHR '']''")
      case True
      then show ?thesis using eq pv s1 pv' by auto
    next
      case nc: False
      then have comma: "\<not> c \<noteq> CHR '',''" using eq pv s1 by (auto split: if_splits)
      show ?thesis
      proof (cases "nxt_conf_json_skip_space pos2")
        case Nil
        then show ?thesis using eq pv s1 nc comma by simp
      next
        case s2: (Cons c3 pos3)
        obtain es where l: "parse_array_loop each (c3 # pos3) = Ret (es, r5)"
          and vs: "vs = v # es"
          using eq pv s1 nc comma s2 by (auto split: ret.splits)
        from "9.hyps"(2) [OF pv refl s1 nc comma s2 l ob] vs pv' show ?thesis by simp
      qed
    qed
  qed
qed

lemma number_loop_bound:
  "number_loop ch i s = Some (j, ch', r) \<Longrightarrow> i \<le> NXT_INT64_T_MAX \<Longrightarrow> j \<le> NXT_INT64_T_MAX"
proof (induction ch i s rule: number_loop.induct)
  case (1 ch integer)
  then show ?case by simp
next
  case (2 ch0 integer c p)
  define ch where "ch = (byte c + 256 - byte CHR ''0'') mod 256"
  show ?case
  proof (cases "ch > 9")
    case True
    then show ?thesis using "2.prems" by (simp add: ch_def Let_def)
  next
    case False
    then have ok: "\<not> (integer \<ge> NXT_INT64_T_MAX div 10
              \<and> (integer > NXT_INT64_T_MAX div 10 \<or> ch > NXT_INT64_T_MAX mod 10))"
      and rec: "number_loop ch ((integer * 10 + ch) mod 2 ^ 64) p = Some (j, ch', r)"
      using "2.prems"(1) by (auto simp: ch_def Let_def split: if_splits)
    have "integer * 10 + ch \<le> NXT_INT64_T_MAX"
      using ok False by (auto simp: NXT_INT64_T_MAX_def)
    then have "(integer * 10 + ch) mod 2 ^ 64 \<le> NXT_INT64_T_MAX"
      by (simp add: NXT_INT64_T_MAX_def)
    with "2.IH" [OF ch_def False _ rec] ok show ?thesis by (simp add: ch_def)
  qed
qed

lemma word_of_nat_not_min:
  assumes "j \<le> NXT_INT64_T_MAX"
  shows "(word_of_nat j :: 64 word) \<noteq> - (2 ^ 63)" "- (word_of_nat j :: 64 word) \<noteq> - (2 ^ 63)"
proof -
  have u: "unat (word_of_nat j :: 64 word) = j"
    using assms by (simp add: unat_of_nat NXT_INT64_T_MAX_def take_bit_nat_eq_self)
  have m: "unat (- (2 ^ 63) :: 64 word) = 2 ^ 63" by simp
  show "(word_of_nat j :: 64 word) \<noteq> - (2 ^ 63)"
    using u m assms by (auto simp: NXT_INT64_T_MAX_def)
  have "(word_of_nat j :: 64 word) \<noteq> 2 ^ 63"
    using u assms by (auto simp: NXT_INT64_T_MAX_def)
  then show "- (word_of_nat j :: 64 word) \<noteq> - (2 ^ 63)" by simp
qed

lemma parse_number_llabs_defined:
  assumes "nxt_conf_json_parse_number s = Ret (v, r)"
  shows "llabs_defined v"
proof -
  obtain c cs where s: "s = c # cs"
    using assms by (cases s) (simp_all add: nxt_conf_json_parse_number_def)
  define pos where "pos = (if c = CHR ''-'' then cs else s)"
  obtain integer ch p where l: "number_loop (byte c) 0 pos = Some (integer, ch, p)"
    and v: "v = JSON_INTEGER (if c = CHR ''-'' then - (word_of_nat integer)
                              else word_of_nat integer)"
    using assms
    by (auto simp: nxt_conf_json_parse_number_def s pos_def Let_def
        split: option.splits if_splits)
  have "integer \<le> NXT_INT64_T_MAX"
    using number_loop_bound [OF l] by simp
  then show ?thesis
    using word_of_nat_not_min [of integer] by (simp add: v)
qed

text \<open>
  C9.  At a value position that starts with \<open>t\<close> and has four bytes at least before the
  end, \<open>nxt_conf_json_parse_value\<close> returns boolean true and moves past four bytes,
  whatever the three bytes after \<open>t\<close> are; likewise \<open>f\<close> with five bytes gives false
  and \<open>n\<close> with four gives null.  The input \<open>txyz\<close> parses to boolean true.
\<close>

theorem C9_keywords_unchecked:
  "(3 \<le> length cs \<longrightarrow>
      nxt_conf_json_parse_value each (CHR ''t'' # cs) = Ret (JSON_BOOLEAN True, drop 3 cs))
   \<and> (4 \<le> length cs \<longrightarrow>
      nxt_conf_json_parse_value each (CHR ''f'' # cs) = Ret (JSON_BOOLEAN False, drop 4 cs))
   \<and> (3 \<le> length cs \<longrightarrow>
      nxt_conf_json_parse_value each (CHR ''n'' # cs) = Ret (JSON_NULL, drop 3 cs))
   \<and> nxt_conf_json_parse each ''txyz'' = Ret (JSON_BOOLEAN True)"
proof -
  have "nxt_conf_json_parse each ''txyz'' = Ret (JSON_BOOLEAN True)"
    by (simp add: keyword_def nxt_conf_json_parse_def CR_def LF_def
        nxt_conf_json_parse_value.simps)
  then show ?thesis
    by (simp add: keyword_def numeral_3_eq_3 numeral_Bit0 drop_Suc
        nxt_conf_json_parse_value.simps)
qed

theorem C9_keywords_unchecked_witness:
  "nxt_conf_json_parse_value (\<lambda>ms. ms) ''twxyz'' = Ret (JSON_BOOLEAN True, ''z'')
   \<and> nxt_conf_json_parse_value (\<lambda>ms. ms) ''fwxyz'' = Ret (JSON_BOOLEAN False, [])
   \<and> nxt_conf_json_parse_value (\<lambda>ms. ms) ''nwxyz'' = Ret (JSON_NULL, ''z'')"
  using C9_keywords_unchecked [of "''wxyz''" "\<lambda>ms. ms"] by simp

text \<open>
  C2, on the code.  The text of the escapes for D834 and DD1E parses to a short string of the six
  bytes E3 A0 B4 E3 8C 94, not to the four bytes F0 9D 84 9E of U+1D11E: the digits
  \<open>D834\<close> are decoded to the number 0x3834, since a digit from \<open>A\<close> to \<open>F\<close> counts as
  its distance from \<open>A\<close>.
\<close>

lemma parse_string_surrogates:
  "nxt_conf_json_parse_string
     (CHR 0x22 # CHR 0x5C # ''uD834'' @ CHR 0x5C # ''uDD1E'' @ [CHR 0x22])
   = Some (JSON_SHORT_STRING [CHR 0xE3, CHR 0xA0, CHR 0xB4, CHR 0xE3, CHR 0x8C, CHR 0x94], [])"
  by code_simp

theorem C2_surrogate_pair_decoding:
  "nxt_conf_json_parse each
     (CHR 0x22 # CHR 0x5C # ''uD834'' @ CHR 0x5C # ''uDD1E'' @ [CHR 0x22])
   = Ret (JSON_STR (JSON_SHORT_STRING
            [CHR 0xE3, CHR 0xA0, CHR 0xB4, CHR 0xE3, CHR 0x8C, CHR 0x94]))
   \<and> nxt_utf8_encode 0x1D11E = [CHR 0xF0, CHR 0x9D, CHR 0x84, CHR 0x9E]
   \<and> hex4 CHR ''D'' CHR ''8'' CHR ''3'' CHR ''4'' = 0x3834"
proof -
  have "nxt_utf8_encode 0x1D11E = [CHR 0xF0, CHR 0x9D, CHR 0x84, CHR 0x9E]"
    by code_simp
  moreover have "hex4 CHR ''D'' CHR ''8'' CHR ''3'' CHR ''4'' = 0x3834"
    by (simp add: hex4_def hex_step_def byte_def)
  moreover have "nxt_conf_json_parse each
     (CHR 0x22 # CHR 0x5C # ''uD834'' @ CHR 0x5C # ''uDD1E'' @ [CHR 0x22])
   = Ret (JSON_STR (JSON_SHORT_STRING
            [CHR 0xE3, CHR 0xA0, CHR 0xB4, CHR 0xE3, CHR 0x8C, CHR 0x94]))"
    using parse_string_surrogates
    by (simp add: nxt_conf_json_parse_def nxt_conf_json_parse_value.simps CR_def LF_def)
  ultimately show ?thesis by blast
qed

text \<open>
  C10.  The text \<open>-9223372036854775808\<close> is rejected, and no value the parser returns
  holds the least 64-bit integer: the loop of \<open>nxt_conf_json_parse_number\<close> keeps the
  magnitude at \<open>NXT_INT64_T_MAX\<close> at most, whatever the sign.
\<close>

lemma parse_number_min:
  "nxt_conf_json_parse_number ''-9223372036854775808'' = Ret_NULL"
  by (simp add: nxt_conf_json_parse_number_def NXT_INT64_T_MAX_def byte_def)

lemma parse_number_min_succ:
  "nxt_conf_json_parse_number ''-9223372036854775807''
     = Ret (JSON_INTEGER (- 9223372036854775807), [])"
  by (simp add: nxt_conf_json_parse_number_def NXT_INT64_T_MAX_def byte_def)

lemma parse_value_llabs_defined:
  assumes "lvlhsh_each_ok each" and "nxt_conf_json_parse_value each pos = Ret (v, r)"
  shows "llabs_defined v"
proof (rule parse_invariant(1) [where P = llabs_defined and Q = "\<lambda>_. True", OF _ _ _ _ _ _ _ assms(2)])
  fix ms :: "nxt_conf_json_obj_member list"
  assume "list_all (\<lambda>m. True \<and> llabs_defined (snd m)) ms"
  then show "llabs_defined (JSON_OBJECT (each ms))"
    using lvlhsh_each_set [OF assms(1), of ms] by (simp add: list_all_iff)
qed (simp_all add: parse_number_llabs_defined)

theorem C10_int64_min_rejected:
  assumes "lvlhsh_each_ok each"
  shows "nxt_conf_json_parse each ''-9223372036854775808'' = Ret_NULL
         \<and> (\<forall>input v. nxt_conf_json_parse each input = Ret v \<longrightarrow> llabs_defined v)"
proof -
  have "nxt_conf_json_parse each ''-9223372036854775808'' = Ret_NULL"
    using parse_number_min
    by (simp add: nxt_conf_json_parse_def nxt_conf_json_parse_value.simps byte_def
        CR_def LF_def)
  moreover have "llabs_defined v" if "nxt_conf_json_parse each input = Ret v" for input v
  proof -
    from that obtain pos r where "nxt_conf_json_parse_value each pos = Ret (v, r)"
      by (auto simp: nxt_conf_json_parse_def split: list.splits ret.splits if_splits)
    with assms show ?thesis by (rule parse_value_llabs_defined)
  qed
  ultimately show ?thesis by blast
qed

theorem C10_int64_min_rejected_witness:
  "lvlhsh_each_ok (\<lambda>ms. ms)
   \<and> nxt_conf_json_parse (\<lambda>ms. ms) ''-9223372036854775808'' = Ret_NULL
   \<and> nxt_conf_json_parse (\<lambda>ms. ms) ''-9223372036854775807''
       = Ret (JSON_INTEGER (- 9223372036854775807))
   \<and> llabs_defined (JSON_INTEGER (- 9223372036854775807))"
proof -
  have p: "nxt_conf_json_parse (\<lambda>ms. ms) ''-9223372036854775807''
       = Ret (JSON_INTEGER (- 9223372036854775807))"
    using parse_number_min_succ
    by (simp add: nxt_conf_json_parse_def nxt_conf_json_parse_value.simps byte_def
        CR_def LF_def)
  from C10_int64_min_rejected [OF lvlhsh_each_ok_id] p lvlhsh_each_ok_id
  show ?thesis by metis
qed


subsection \<open>The variant of a parsed string\<close>











section \<open>Properties of the edit engine\<close>

subsection \<open>Copying with a pool that never fails\<close>

lemma mp_get_infinity [simp]: "nxt_mp_get \<infinity> = Some \<infinity>"
  by (simp add: nxt_mp_get_def)

lemma copy_name_infinity [simp]: "copy_name \<infinity> name = Copied name \<infinity>"
  by (simp add: copy_name_def split: nxt_conf_json_str.splits)

lemma copy_members_infinity:
  assumes "\<And>m. m \<in> set ms \<Longrightarrow> nxt_conf_json_copy_value \<infinity> (snd m) pass_op = Copied (f m) \<infinity>"
    and "length ms \<le> room"
  shows "copy_members \<infinity> ms pass_op room = Copied (map (\<lambda>m. (fst m, f m)) ms) \<infinity>"
  using assms
proof (induction ms arbitrary: room)
  case Nil
  then show ?case by simp
next
  case (Cons m ms)
  have "copy_members \<infinity> ms pass_op (room - 1) = Copied (map (\<lambda>m. (fst m, f m)) ms) \<infinity>"
    using Cons.prems by (intro Cons.IH) auto
  then show ?case
    using Cons.prems by simp
qed

lemma copy_array_loop_infinity:
  assumes "\<And>v. v \<in> set vs \<Longrightarrow> nxt_conf_json_copy_value \<infinity> v None = Copied v \<infinity>"
  shows "copy_array_loop \<infinity> vs = Copied vs \<infinity>"
  using assms by (induction vs) simp_all

lemma copy_members_same:
  assumes "\<And>m. m \<in> set ms \<Longrightarrow> nxt_conf_json_copy_value \<infinity> (snd m) None = Copied (snd m) \<infinity>"
    and "length ms \<le> room"
  shows "copy_members \<infinity> ms None room = Copied ms \<infinity>"
  using copy_members_infinity [of ms None snd room] assms by (simp add: map_idI)

lemma copy_object_None:
  assumes "\<And>m. m \<in> set ms \<Longrightarrow> nxt_conf_json_copy_value \<infinity> (snd m) None = Copied (snd m) \<infinity>"
  shows "nxt_conf_json_copy_object \<infinity> ms None = Copied (JSON_OBJECT ms) \<infinity>"
  using copy_members_same [of ms "length ms"] assms
  by (simp add: nxt_conf_json_copy_object.simps object_count_def
      copy_object_loop.simps [of _ _ _ _ _ None None] next_index_def)

lemma copy_value_None: "nxt_conf_json_copy_value \<infinity> v None = Copied v \<infinity>"
proof (induction v)
  case (JSON_STR x)
  then show ?case
    by (cases x) (simp_all add: nxt_conf_json_copy_value.simps)
next
  case (JSON_ARRAY vs)
  then show ?case
    using copy_array_loop_infinity [of vs]
    by (simp add: nxt_conf_json_copy_value.simps)
next
  case (JSON_OBJECT ms)
  have "nxt_conf_json_copy_object \<infinity> ms None = Copied (JSON_OBJECT ms) \<infinity>"
  proof (rule copy_object_None)
    fix m assume m: "m \<in> set ms"
    have "snd m \<in> Basic_BNFs.snds m"
      by (simp add: snds.simps)
    with m show "nxt_conf_json_copy_value \<infinity> (snd m) None = Copied (snd m) \<infinity>"
      by (rule JSON_OBJECT)
  qed
  then show ?case
    by (simp add: nxt_conf_json_copy_value.simps)
qed (simp_all add: nxt_conf_json_copy_value.simps)

lemma copy_members_None:
  "length ms \<le> room \<Longrightarrow> copy_members \<infinity> ms None room = Copied ms \<infinity>"
  by (rule copy_members_same) (simp_all add: copy_value_None)

lemma copy_object_loop_rest:
  assumes "s \<le> length ms" "cnt = length dst + (length ms - s)"
  shows "copy_object_loop \<infinity> ms cnt s index0 None None dst = Copied (JSON_OBJECT (dst @ drop s ms)) \<infinity>"
  using assms
  by (simp add: copy_object_loop.simps [of _ _ _ _ _ None None] next_index_def copy_members_None)

lemma copy_object_replace:
  assumes "i < length ms"
  shows "nxt_conf_json_copy_object \<infinity> ms (Some (Op i (NXT_CONF_JSON_OP_REPLACE w) None))
         = Copied (JSON_OBJECT (ms[i := (fst (ms ! i), w)])) \<infinity>"
proof -
  have u: "ms[i := (fst (ms ! i), w)] = take i ms @ (fst (ms ! i), w) # drop (Suc i) ms"
    using assms by (rule upd_conv_take_nth_drop)
  have r: "copy_object_loop \<infinity> ms (length ms) (i + 1) i None None (take i ms @ [(fst (ms ! i), w)])
        = Copied (JSON_OBJECT ((take i ms @ [(fst (ms ! i), w)]) @ drop (i + 1) ms)) \<infinity>"
    using assms by (intro copy_object_loop_rest) auto
  show ?thesis
    using assms r
    by (auto simp: nxt_conf_json_copy_object.simps object_count_def Let_def
      copy_object_loop.simps [of _ _ _ _ _ None "Some x" for x] next_index_def copy_members_None u)
qed

lemma take_1_drop: "i < length ms \<Longrightarrow> take (Suc 0) (drop i ms) = [ms ! i]"
  by (metis Cons_nth_drop_Suc take0 take_Suc_Cons)

lemma copy_object_pass:
  assumes "i < length ms"
    and "nxt_conf_json_copy_value \<infinity> (snd (ms ! i)) (Some sub) = Copied v' \<infinity>"
  shows "nxt_conf_json_copy_object \<infinity> ms (Some (Op i (NXT_CONF_JSON_OP_PASS (Some sub)) None))
         = Copied (JSON_OBJECT (ms[i := (fst (ms ! i), v')])) \<infinity>"
proof -
  have u: "ms[i := (fst (ms ! i), v')] = take i ms @ (fst (ms ! i), v') # drop (Suc i) ms"
    using assms(1) by (rule upd_conv_take_nth_drop)
  have r: "copy_object_loop \<infinity> ms (length ms) (i + 1) (i + 1) None None
             (take i ms @ [(fst (ms ! i), v')])
        = Copied (JSON_OBJECT ((take i ms @ [(fst (ms ! i), v')]) @ drop (i + 1) ms)) \<infinity>"
    using assms(1) by (intro copy_object_loop_rest) auto
  have m: "copy_members \<infinity> [ms ! i] (Some sub) (length ms - i) = Copied [(fst (ms ! i), v')] \<infinity>"
    using assms by simp
  have p: "copy_object_loop \<infinity> ms (length ms) i (i + 1) (Some sub) None (take i ms)
        = Copied (JSON_OBJECT (ms[i := (fst (ms ! i), v')])) \<infinity>"
    using assms(1) r m
    by (auto simp: copy_object_loop.simps [of _ _ _ _ _ "Some x" for x] Let_def u take_1_drop)
  show ?thesis
    using assms(1) p
    by (auto simp: nxt_conf_json_copy_object.simps object_count_def Let_def
      copy_object_loop.simps [of _ _ _ _ _ None "Some x" for x] next_index_def copy_members_None)
qed


subsection \<open>Paths\<close>

text \<open>
  A path is written from its tokens, each after a slash.  \<open>member_index\<close> is the place
  of the first member with a name, \<open>walk\<close> follows the tokens of a path from a value
  through the members they name and gives their places and the value reached.
  \<open>op_chain\<close> is the operations that pass through the members at these places to a last
  operation, and \<open>tree_replace\<close> is the tree with the value at these places replaced:
  every member keeps its place and its name, and the members off the path are the same.
\<close>

definition path_of :: "string list \<Rightarrow> string" where
  "path_of toks = concat (map ((#) CHR ''/'') toks)"

fun member_index :: "nxt_conf_json_obj_member list \<Rightarrow> string \<Rightarrow> nat option" where
  "member_index [] name = None"
| "member_index (m # ms) name =
     (if str_bytes (fst m) = name then Some 0 else map_option Suc (member_index ms name))"

definition member_of :: "nxt_conf_json_value \<Rightarrow> string \<Rightarrow> nat option" where
  "member_of v name = (case v of JSON_OBJECT ms \<Rightarrow> member_index ms name | _ \<Rightarrow> None)"

definition members_of :: "nxt_conf_json_value \<Rightarrow> nxt_conf_json_obj_member list" where
  "members_of v = (case v of JSON_OBJECT ms \<Rightarrow> ms | _ \<Rightarrow> [])"

fun walk :: "nxt_conf_json_value \<Rightarrow> string list \<Rightarrow> (nat list \<times> nxt_conf_json_value) option" where
  "walk t [] = Some ([], t)"
| "walk t (tok # toks) =
     (case member_of t tok of
        None \<Rightarrow> None
      | Some i \<Rightarrow>
          (case walk (snd (members_of t ! i)) toks of
             None \<Rightarrow> None
           | Some (idx, u) \<Rightarrow> Some (i # idx, u)))"

fun op_chain :: "nat list \<Rightarrow> nxt_conf_json_op \<Rightarrow> nxt_conf_json_op" where
  "op_chain [] op = op"
| "op_chain (i # idx) op = Op (i mod 2 ^ 32) (NXT_CONF_JSON_OP_PASS (Some (op_chain idx op))) None"

fun tree_replace :: "nxt_conf_json_value \<Rightarrow> nat list \<Rightarrow> nxt_conf_json_value \<Rightarrow> nxt_conf_json_value" where
  "tree_replace t [] w = w"
| "tree_replace t (i # idx) w =
     (case t of
        JSON_OBJECT ms \<Rightarrow> JSON_OBJECT (ms[i := (fst (ms ! i), tree_replace (snd (ms ! i)) idx w)])
      | _ \<Rightarrow> t)"

lemma member_index_less: "member_index ms name = Some i \<Longrightarrow> i < length ms"
  by (induction ms arbitrary: i) (auto split: if_splits)

lemma get_member_loop_index:
  "get_member_loop ms name n
   = map_option (\<lambda>i. (snd (ms ! i), (n + i) mod 2 ^ 32)) (member_index ms name)"
proof (induction ms arbitrary: n)
  case Nil
  then show ?case by simp
next
  case (Cons m ms)
  show ?case
    by (simp add: Cons.IH option.map_comp comp_def)
qed

lemma get_member_of:
  "nxt_conf_json_object_get_member t name
   = map_option (\<lambda>i. (snd (members_of t ! i), i mod 2 ^ 32)) (member_of t name)"
  by (cases t)
     (simp_all add: nxt_conf_json_object_get_member_def member_of_def members_of_def
        get_member_loop_index)

lemma path_of_Nil [simp]: "path_of [] = []"
  by (simp add: path_of_def)

lemma path_of_Cons [simp]: "path_of (tok # toks) = CHR ''/'' # tok @ path_of toks"
  by (simp add: path_of_def)

lemma path_of_empty [simp]: "path_of toks = [] \<longleftrightarrow> toks = []"
  by (cases toks) simp_all

lemma takeWhile_path_of [simp]: "takeWhile (\<lambda>c. c \<noteq> CHR ''/'') (path_of toks) = []"
  by (cases toks) simp_all

lemma dropWhile_path_of [simp]: "dropWhile (\<lambda>c. c \<noteq> CHR ''/'') (path_of toks) = path_of toks"
  by (cases toks) simp_all

lemma next_token_path_of:
  assumes "CHR ''/'' \<notin> set tok"
  shows "nxt_conf_json_path_next_token (path_of (tok # toks)) = (tok, path_of toks, toks = [])"
proof -
  have t: "\<And>x. x \<in> set tok \<Longrightarrow> x \<noteq> CHR ''/''"
    using assms by auto
  have 1: "takeWhile (\<lambda>c. c \<noteq> CHR ''/'') (tok @ path_of toks) = tok"
    using t by (simp add: takeWhile_append2)
  have 2: "dropWhile (\<lambda>c. c \<noteq> CHR ''/'') (tok @ path_of toks) = path_of toks"
    using t by (simp add: dropWhile_append2)
  show ?thesis
    unfolding nxt_conf_json_path_next_token_def Let_def path_of_Cons drop_Suc_Cons One_nat_def
      drop_0 1 2
    by simp
qed

text \<open>What \<open>nxt_conf_json_op_compile\<close> does for the last token of a path.\<close>

definition last_op ::
  "nxt_conf_json_value \<Rightarrow> nxt_conf_json_value option \<Rightarrow> string \<Rightarrow> nxt_int \<times> nxt_conf_json_op" where
  "last_op t v tok =
     (case member_of t tok of
        None \<Rightarrow>
          (case v of
             None \<Rightarrow> (NXT_DECLINED, op_zero)
           | Some w \<Rightarrow>
               (NXT_OK,
                Op 0 (NXT_CONF_JSON_OP_CREATE
                        (if length tok > NXT_CONF_JSON_STR_SIZE then JSON_STRING tok
                         else JSON_SHORT_STRING tok, w)) None))
      | Some j \<Rightarrow>
          (case v of
             None \<Rightarrow> (NXT_OK, Op (j mod 2 ^ 32) NXT_CONF_JSON_OP_DELETE None)
           | Some w \<Rightarrow> (NXT_OK, Op (j mod 2 ^ 32) (NXT_CONF_JSON_OP_REPLACE w) None)))"

lemma compile_last:
  assumes "CHR ''/'' \<notin> set tok"
  shows "nxt_conf_json_op_compile \<infinity> t v (path_of [tok])
         = (fst (last_op t v tok), Some (snd (last_op t v tok)), \<infinity>)"
  using next_token_path_of [OF assms, of "[]"]
  by (simp add: nxt_conf_json_op_compile.simps [of _ _ _ "path_of [tok]"] get_member_of last_op_def
      del: path_of_Cons split: option.splits)

lemma compile_walk:
  assumes "\<forall>t\<in>set pre. CHR ''/'' \<notin> set t" "CHR ''/'' \<notin> set tok"
    and "walk t pre = Some (idx, parent)"
  shows "nxt_conf_json_op_compile \<infinity> t v (path_of (pre @ [tok]))
         = (fst (last_op parent v tok), Some (op_chain idx (snd (last_op parent v tok))), \<infinity>)"
  using assms
proof (induction pre arbitrary: t idx)
  case Nil
  then show ?case
    using compile_last [of tok t v] by simp
next
  case (Cons p ps)
  from Cons.prems(3) obtain i idx' where
    i: "member_of t p = Some i" and w: "walk (snd (members_of t ! i)) ps = Some (idx', parent)"
    and idx: "idx = i # idx'"
    by (auto split: option.splits)
  have nt: "nxt_conf_json_path_next_token (path_of ((p # ps) @ [tok]))
            = (p, path_of (ps @ [tok]), False)"
    using next_token_path_of [of p "ps @ [tok]"] Cons.prems(1) by simp
  have ih: "nxt_conf_json_op_compile \<infinity> (snd (members_of t ! i)) v (path_of (ps @ [tok]))
         = (fst (last_op parent v tok), Some (op_chain idx' (snd (last_op parent v tok))), \<infinity>)"
    using Cons.prems(1,2) w by (intro Cons.IH) auto
  show ?case
    by (simp add: nxt_conf_json_op_compile.simps [of _ _ _ "path_of ((p # ps) @ [tok])"] nt
        get_member_of i ih idx del: path_of_Cons append_Cons)
qed


lemma member_of_object:
  assumes "member_of t p = Some i"
  obtains ms where "t = JSON_OBJECT ms" "member_index ms p = Some i" "i < length ms"
    "members_of t = ms"
  using assms member_index_less
  by (cases t) (auto simp: member_of_def members_of_def)

lemma walk_append:
  "walk t (pre @ [tok]) = Some (idx, u) \<longleftrightarrow>
     (\<exists>idx' parent j. walk t pre = Some (idx', parent) \<and> member_of parent tok = Some j
        \<and> idx = idx' @ [j] \<and> u = snd (members_of parent ! j))"
proof (induction pre arbitrary: t idx)
  case Nil
  show ?case by (auto split: option.splits)
next
  case (Cons p ps)
  show ?case
  proof (cases "member_of t p")
    case None
    then show ?thesis by simp
  next
    case (Some i)
    let ?c = "snd (members_of t ! i)"
    have "walk t ((p # ps) @ [tok]) = Some (idx, u)
          \<longleftrightarrow> (\<exists>idx1. walk ?c (ps @ [tok]) = Some (idx1, u) \<and> idx = i # idx1)"
      using Some by (auto split: option.splits)
    also have "\<dots> \<longleftrightarrow> (\<exists>idx1 idx' parent j. walk ?c ps = Some (idx', parent)
          \<and> member_of parent tok = Some j \<and> idx1 = idx' @ [j] \<and> u = snd (members_of parent ! j)
          \<and> idx = i # idx1)"
      unfolding Cons.IH by blast
    also have "\<dots> \<longleftrightarrow> (\<exists>idx' parent j. walk t (p # ps) = Some (idx', parent)
          \<and> member_of parent tok = Some j \<and> idx = idx' @ [j] \<and> u = snd (members_of parent ! j))"
      using Some by (auto split: option.splits)
    finally show ?thesis .
  qed
qed

lemma tree_replace_append:
  "walk t pre = Some (idx, parent) \<Longrightarrow>
   tree_replace t (idx @ js) w = tree_replace t idx (tree_replace parent js w)"
proof (induction pre arbitrary: t idx)
  case Nil
  then show ?case by simp
next
  case (Cons p ps)
  from Cons.prems obtain i idx' where
    i: "member_of t p = Some i" and w: "walk (snd (members_of t ! i)) ps = Some (idx', parent)"
    and idx: "idx = i # idx'"
    by (auto split: option.splits)
  from i obtain ms where ms: "t = JSON_OBJECT ms" "members_of t = ms"
    by (rule member_of_object)
  show ?case
    using Cons.IH [OF w] ms by (simp add: idx)
qed

lemma copy_chain:
  assumes "walk t pre = Some (idx, parent)" "\<forall>i\<in>set idx. i < 2 ^ 32"
    and "nxt_conf_json_copy_value \<infinity> parent (Some lastop) = Copied parent' \<infinity>"
  shows "nxt_conf_json_copy_value \<infinity> t (Some (op_chain idx lastop))
         = Copied (tree_replace t idx parent') \<infinity>"
  using assms(1,2)
proof (induction pre arbitrary: t idx)
  case Nil
  then show ?case using assms(3) by simp
next
  case (Cons p ps)
  from Cons.prems(1) obtain i idx' where
    i: "member_of t p = Some i" and w: "walk (snd (members_of t ! i)) ps = Some (idx', parent)"
    and idx: "idx = i # idx'"
    by (auto split: option.splits)
  from i obtain ms where ms: "t = JSON_OBJECT ms" "members_of t = ms" "i < length ms"
    by (rule member_of_object)
  have ih: "nxt_conf_json_copy_value \<infinity> (snd (ms ! i)) (Some (op_chain idx' lastop))
         = Copied (tree_replace (snd (ms ! i)) idx' parent') \<infinity>"
    using Cons.IH [OF w] Cons.prems(2) ms idx by simp
  have m: "i mod 2 ^ 32 = i"
    using Cons.prems(2) idx by simp
  show ?case
    using copy_object_pass [OF ms(3) ih] m
    by (simp add: idx ms nxt_conf_json_copy_value.simps [of _ "JSON_OBJECT ms"])
qed



lemma mp_get_0 [simp]: "nxt_mp_get 0 = None"
  by (simp add: nxt_mp_get_def)






lemma member_index_update:
  "member_index (ms[i := (fst (ms ! i), x)]) name = member_index ms name"
proof (induction ms arbitrary: i)
  case Nil
  then show ?case by simp
next
  case (Cons m ms)
  then show ?case by (cases i) simp_all
qed

lemma walk_tree_replace:
  "walk t toks = Some (idx, u) \<Longrightarrow> walk (tree_replace t idx w) toks = Some (idx, w)"
proof (induction toks arbitrary: t idx)
  case Nil
  then show ?case by simp
next
  case (Cons p ps)
  from Cons.prems obtain i idx' where
    i: "member_of t p = Some i" and w: "walk (snd (members_of t ! i)) ps = Some (idx', u)"
    and idx: "idx = i # idx'"
    by (auto split: option.splits)
  from i obtain ms where ms: "t = JSON_OBJECT ms" "member_index ms p = Some i" "i < length ms"
    "members_of t = ms"
    by (rule member_of_object)
  show ?case
    using Cons.IH [OF w] ms
    by (simp add: idx member_of_def members_of_def member_index_update)
qed

text \<open>
  C5.  Let the tokens of a path name, from the tree \<open>t\<close> down, members that exist, at
  places that fit the 32 bits of an operation's index, and let no allocation fail.  Then
  compiling the path with a new value \<open>w\<close> succeeds, and cloning \<open>t\<close> with the compiled
  operations gives \<open>t\<close> with the value at the path replaced by \<open>w\<close>: every object on
  the path keeps its members in their places with their names, all values off the path
  are the same, and the path leads to \<open>w\<close> in the clone.  For the path \<open>/a/b\<close> the
  tokens are \<open>a\<close> and \<open>b\<close>.
\<close>

theorem C5_replace_frame:
  assumes "\<forall>tok\<in>set toks. CHR ''/'' \<notin> set tok" and "toks \<noteq> []"
    and "walk t toks = Some (idx, u)" and "\<forall>i\<in>set idx. i < 2 ^ 32"
  shows "\<exists>ops. nxt_conf_json_op_compile \<infinity> t (Some w) (path_of toks) = (NXT_OK, Some ops, \<infinity>)
           \<and> nxt_conf_json_clone_value \<infinity> t (Some ops) = Copied (tree_replace t idx w) \<infinity>
           \<and> walk (tree_replace t idx w) toks = Some (idx, w)"
proof -
  from assms(2) obtain pre tok where toks: "toks = pre @ [tok]"
    by (metis append_butlast_last_id)
  from assms(3) toks obtain idx' parent j where
    w: "walk t pre = Some (idx', parent)" and j: "member_of parent tok = Some j"
    and idx: "idx = idx' @ [j]"
    using walk_append [of t pre tok idx u] by auto
  from j obtain ms where ms: "parent = JSON_OBJECT ms" "j < length ms"
    by (rule member_of_object)
  have jm: "j mod 2 ^ 32 = j"
    using assms(4) idx by simp
  let ?last = "Op j (NXT_CONF_JSON_OP_REPLACE w) None"
  have l: "last_op parent (Some w) tok = (NXT_OK, ?last)"
    using jm by (simp add: last_op_def j)
  have c: "nxt_conf_json_op_compile \<infinity> t (Some w) (path_of toks)
           = (NXT_OK, Some (op_chain idx' ?last), \<infinity>)"
    using compile_walk [OF _ _ w, of tok "Some w"] assms(1) toks l by simp
  have "nxt_conf_json_copy_value \<infinity> parent (Some ?last)
        = Copied (JSON_OBJECT (ms[j := (fst (ms ! j), w)])) \<infinity>"
    using copy_object_replace [OF ms(2), of w]
    by (simp add: ms nxt_conf_json_copy_value.simps [of _ "JSON_OBJECT ms"])
  then have "nxt_conf_json_copy_value \<infinity> t (Some (op_chain idx' ?last))
        = Copied (tree_replace t idx' (JSON_OBJECT (ms[j := (fst (ms ! j), w)]))) \<infinity>"
    using assms(4) idx by (intro copy_chain [OF w]) auto
  moreover have "tree_replace t idx w = tree_replace t idx' (JSON_OBJECT (ms[j := (fst (ms ! j), w)]))"
    using tree_replace_append [OF w, of "[j]" w] by (simp add: idx ms)
  ultimately show ?thesis
    using c walk_tree_replace [OF assms(3), of w] by (simp add: nxt_conf_json_clone_value_def)
qed

theorem C5_replace_frame_witness:
  "nxt_conf_json_op_compile \<infinity>
     (JSON_OBJECT
        [(JSON_SHORT_STRING ''a'',
          JSON_OBJECT [(JSON_SHORT_STRING ''b'', JSON_INTEGER 1),
                       (JSON_SHORT_STRING ''c'', JSON_INTEGER 2)]),
         (JSON_SHORT_STRING ''x'', JSON_INTEGER 3)])
     (Some (JSON_BOOLEAN True)) ''/a/b''
   = (NXT_OK,
      Some (Op 0 (NXT_CONF_JSON_OP_PASS
                    (Some (Op 0 (NXT_CONF_JSON_OP_REPLACE (JSON_BOOLEAN True)) None))) None),
      \<infinity>)
   \<and> nxt_conf_json_clone_value \<infinity>
     (JSON_OBJECT
        [(JSON_SHORT_STRING ''a'',
          JSON_OBJECT [(JSON_SHORT_STRING ''b'', JSON_INTEGER 1),
                       (JSON_SHORT_STRING ''c'', JSON_INTEGER 2)]),
         (JSON_SHORT_STRING ''x'', JSON_INTEGER 3)])
     (Some (Op 0 (NXT_CONF_JSON_OP_PASS
                    (Some (Op 0 (NXT_CONF_JSON_OP_REPLACE (JSON_BOOLEAN True)) None))) None))
   = Copied
      (JSON_OBJECT
        [(JSON_SHORT_STRING ''a'',
          JSON_OBJECT [(JSON_SHORT_STRING ''b'', JSON_BOOLEAN True),
                       (JSON_SHORT_STRING ''c'', JSON_INTEGER 2)]),
         (JSON_SHORT_STRING ''x'', JSON_INTEGER 3)]) \<infinity>"
proof -
  let ?t = "JSON_OBJECT
        [(JSON_SHORT_STRING ''a'',
          JSON_OBJECT [(JSON_SHORT_STRING ''b'', JSON_INTEGER 1),
                       (JSON_SHORT_STRING ''c'', JSON_INTEGER 2)]),
         (JSON_SHORT_STRING ''x'', JSON_INTEGER 3)]"
  have w: "walk ?t [''a'', ''b''] = Some ([0, 0], JSON_INTEGER 1)"
    by (simp add: member_of_def members_of_def)
  have p: "path_of [''a'', ''b''] = ''/a/b''"
    by simp
  have c: "nxt_conf_json_op_compile \<infinity> ?t (Some (JSON_BOOLEAN True)) ''/a/b''
   = (NXT_OK,
      Some (Op 0 (NXT_CONF_JSON_OP_PASS
                    (Some (Op 0 (NXT_CONF_JSON_OP_REPLACE (JSON_BOOLEAN True)) None))) None),
      \<infinity>)"
    by (simp add: nxt_conf_json_op_compile.simps nxt_conf_json_path_next_token_def
        nxt_conf_json_object_get_member_def)
  from C5_replace_frame [of "[''a'', ''b'']" ?t "[0, 0]" "JSON_INTEGER 1" "JSON_BOOLEAN True"] w
  show ?thesis
    unfolding p c by simp
qed




end
